theory Spec2Isabelle
  imports Complex_Main "HOL-Library.FSet" "HOL-Library.AList" "HOL-Library.Multiset"
    "HOL-Library.Log_Nat"
begin

section \<open>Data model\<close>

text \<open>
  The program is \<^verbatim>\<open>degree_score_algorithm.py\<close>. A graph is a Python dict from an
  integer node to the set of its neighbours. A dict keeps its keys in insertion order and
  holds each key once, so it is modelled by an association list; a Python set is finite,
  so a neighbour set is an \<open>int fset\<close>. In the functions on values every set stored in
  the dict is an object of its own, as line 14 creates them, so no two keys share a set;
  the store of the later section drops this assumption.

  A score is a Python number, an \<^verbatim>\<open>int\<close> or a \<^verbatim>\<open>float\<close>; floats are IEEE 754 doubles
  and the arithmetic on them rounds, as the section on numbers sets out.
\<close>

type_synonym graph = "(int \<times> int fset) list"

datatype error =
  ValueError | KeyError | IndexError | EOFError | TypeError | OverflowError | ZeroDivisionError

text \<open>\<^verbatim>\<open>graph[u]\<close>: the value stored under a key, \<^verbatim>\<open>KeyError\<close> when the key is absent.\<close>

definition lookup :: "graph \<Rightarrow> int \<Rightarrow> error + int fset" where
  "lookup g u = (case map_of g u of None \<Rightarrow> Inl KeyError | Some s \<Rightarrow> Inr s)"

text \<open>\<^verbatim>\<open>graph[u].add(v)\<close>: the set under key \<open>u\<close> gains \<open>v\<close>; the dict keeps its key order.\<close>

definition add_neighbor :: "graph \<Rightarrow> int \<Rightarrow> int \<Rightarrow> error + graph" where
  "add_neighbor g u v =
     (case lookup g u of
        Inl e \<Rightarrow> Inl e
      | Inr s \<Rightarrow> Inr (AList.update u (finsert v s) g))"

section \<open>Graph generation\<close>

text \<open>Lines 16-20: the pairs \<open>(i, j)\<close> with \<open>0 \<le> i < j < n\<close>, in the order the two loops append them.\<close>

definition possible_edges :: "int \<Rightarrow> (int \<times> int) list" where
  "possible_edges n =
     (if n > 1 then concat (map (\<lambda>i. map (\<lambda>j. (i, j)) [i + 1..n - 1]) [0..n - 1]) else [])"

text \<open>
  The two statements \<^verbatim>\<open>graph[u].add(v); graph[v].add(u)\<close> of lines 25-26, which lines
  98-99 repeat for the edge the user enters.
\<close>

definition add_edge :: "graph \<Rightarrow> int \<Rightarrow> int \<Rightarrow> error + graph" where
  "add_edge g u v =
     (case add_neighbor g u v of
        Inl e \<Rightarrow> Inl e
      | Inr g1 \<Rightarrow> add_neighbor g1 v u)"

text \<open>Lines 24-26: the loop over the chosen pairs.\<close>

fun add_edges :: "graph \<Rightarrow> (int \<times> int) list \<Rightarrow> error + graph" where
  "add_edges g [] = Inr g"
| "add_edges g ((u, v) # es) =
     (case add_edge g u v of
        Inl e \<Rightarrow> Inl e
      | Inr g' \<Rightarrow> add_edges g' es)"

text \<open>
  \<^verbatim>\<open>generate_random_graph(n, m)\<close>, lines 3-28. \<^verbatim>\<open>random.shuffle\<close> is library code that
  reorders the list in place; the order it leaves is the parameter \<open>shuffle\<close>, and the
  theorems below hold for every \<open>shuffle\<close> that returns a permutation of its argument.
  The slice \<^verbatim>\<open>possible_edges[:m]\<close> is \<open>take (nat m)\<close>, since \<open>m\<close> is not negative there.
\<close>

definition generate_random_graph ::
  "((int \<times> int) list \<Rightarrow> (int \<times> int) list) \<Rightarrow> int \<Rightarrow> int \<Rightarrow> error + graph" where
  "generate_random_graph shuffle n m =
     (if n < 0 \<or> m < 0 then Inl ValueError
      else let max_edges = n * (n - 1) div 2 in
        if m > max_edges then Inl ValueError
        else let graph = map (\<lambda>i. (i, {||})) [0..n - 1] in
          add_edges graph (take (nat m) (shuffle (possible_edges n))))"

section \<open>Numbers\<close>

text \<open>
  A Python \<^verbatim>\<open>float\<close> is an IEEE 754 binary64 value. A finite one is modelled by the
  rational number it denotes, the others are the two infinities and NaN. The two zeros are
  one value here: the program never divides by a float and never looks at the sign of a
  zero, and \<open>0.0 + (-0.0)\<close> is \<open>0.0\<close>. A double has 53 significant bits, the least unit
  in the last place is \<open>2 powi - 1074\<close>, and a result that rounds to \<open>2 powi 1024\<close> or
  more overflows. Every operation returns its exact result rounded to the nearest double,
  ties to the even significand.
\<close>

datatype double = Finite rat | PInf | NInf | NaN

datatype number = PyInt int | PyFloat double

text \<open>\<open>ilog2 r\<close> is the \<open>e\<close> with \<open>2 powi e \<le> r < 2 powi (e + 1)\<close>, for \<open>r > 0\<close>.\<close>

definition ilog2 :: "rat \<Rightarrow> int" where
  "ilog2 r =
     (let (p, q) = quotient_of r; e = bitlen p - bitlen q
      in if 2 powi e \<le> r then e else e - 1)"

definition round_half_even :: "rat \<Rightarrow> int" where
  "round_half_even z =
     (let f = \<lfloor>z\<rfloor>; d = z - of_int f
      in if d < 1 / 2 then f else if d > 1 / 2 then f + 1 else if even f then f else f + 1)"

definition round_double :: "rat \<Rightarrow> double" where
  "round_double r =
     (if r = 0 then Finite 0
      else let a = \<bar>r\<bar>; q = max (ilog2 a - 52) (- 1074);
               v = of_int (round_half_even (a / 2 powi q)) * 2 powi q
           in if v \<ge> 2 powi 1024 then (if r > 0 then PInf else NInf)
              else Finite (if r > 0 then v else - v))"

text \<open>\<^verbatim>\<open>a + b\<close> on floats.\<close>

fun fadd :: "double \<Rightarrow> double \<Rightarrow> double" where
  "fadd NaN b = NaN"
| "fadd a NaN = NaN"
| "fadd PInf NInf = NaN"
| "fadd NInf PInf = NaN"
| "fadd PInf b = PInf"
| "fadd a PInf = PInf"
| "fadd NInf b = NInf"
| "fadd a NInf = NInf"
| "fadd (Finite a) (Finite b) = round_double (a + b)"

text \<open>\<^verbatim>\<open>a / w\<close> on floats, for a finite divisor \<open>w > 0\<close>.\<close>

fun fdiv :: "double \<Rightarrow> rat \<Rightarrow> double" where
  "fdiv (Finite a) w = round_double (a / w)"
| "fdiv PInf w = PInf"
| "fdiv NInf w = NInf"
| "fdiv NaN w = NaN"

text \<open>
  The conversion of an \<^verbatim>\<open>int\<close> to a \<^verbatim>\<open>float\<close>, which Python makes before it mixes the
  two: \<^verbatim>\<open>OverflowError\<close> when the integer is too large for a double.
\<close>

definition int_to_double :: "int \<Rightarrow> error + rat" where
  "int_to_double k =
     (case round_double (of_int k) of Finite w \<Rightarrow> Inr w | _ \<Rightarrow> Inl OverflowError)"

text \<open>
  \<^verbatim>\<open>x / d\<close> for a number \<open>x\<close> and an \<^verbatim>\<open>int\<close> \<open>d \<ge> 0\<close>, Python's true division. Of two
  integers it is their quotient rounded once, \<^verbatim>\<open>OverflowError\<close> when that is too large for
  a double; for a float \<open>x\<close> the divisor is converted first.
\<close>

definition true_divide :: "number \<Rightarrow> nat \<Rightarrow> error + double" where
  "true_divide x d =
     (if d = 0 then Inl ZeroDivisionError
      else case x of
        PyInt a \<Rightarrow>
          (case round_double (of_int a / of_nat d) of
             Finite q \<Rightarrow> Inr (Finite q)
           | _ \<Rightarrow> Inl OverflowError)
      | PyFloat f \<Rightarrow>
          (case int_to_double (int d) of
             Inl e \<Rightarrow> Inl e
           | Inr w \<Rightarrow> Inr (fdiv f w)))"

text \<open>
  \<^verbatim>\<open>v + c\<close> for a number \<open>v\<close> and a float \<open>c\<close>, as \<^verbatim>\<open>y[i] += c\<close> computes it for a list
  element of either kind.
\<close>

definition num_add :: "number \<Rightarrow> double \<Rightarrow> error + double" where
  "num_add v c =
     (case v of
        PyFloat a \<Rightarrow> Inr (fadd a c)
      | PyInt k \<Rightarrow> (case int_to_double k of Inl e \<Rightarrow> Inl e | Inr w \<Rightarrow> Inr (fadd (Finite w) c)))"

section \<open>Score update\<close>

text \<open>
  Indexing a Python list, \<^verbatim>\<open>xs[i]\<close>: a negative index counts from the end, and an index
  outside \<open>[-len, len)\<close> raises \<^verbatim>\<open>IndexError\<close>. The result is the position read or written.
\<close>

definition py_index :: "'a list \<Rightarrow> int \<Rightarrow> error + nat" where
  "py_index xs i =
     (let n = int (length xs); k = (if i < 0 then n + i else i)
      in if 0 \<le> k \<and> k < n then Inr (nat k) else Inl IndexError)"

text \<open>Line 44: the dict of degrees, one entry per node.\<close>

definition degrees :: "graph \<Rightarrow> (int \<times> nat) list" where
  "degrees g = map (\<lambda>(node, neighbors). (node, fcard neighbors)) g"

text \<open>
  Lines 48-49, one pass of the inner loop's body. \<^verbatim>\<open>degrees[j]\<close> raises \<^verbatim>\<open>KeyError\<close> for a
  \<open>j\<close> that is no node; under the guard, \<^verbatim>\<open>y[i] += x[j] / degrees[j]\<close> reads \<^verbatim>\<open>y[i]\<close>, then
  \<^verbatim>\<open>x[j]\<close>, divides, adds and stores the sum back. \<open>x\<close> holds the numbers the caller
  passed; \<open>y\<close> is the function's own list of floats.
\<close>

definition score_step ::
  "(int \<times> nat) list \<Rightarrow> number list \<Rightarrow> int \<Rightarrow> int \<Rightarrow> double list \<Rightarrow> error + double list" where
  "score_step degs x i j y =
     (case map_of degs j of
        None \<Rightarrow> Inl KeyError
      | Some d \<Rightarrow>
          if d > 0 then
            (case py_index y i of
               Inl e \<Rightarrow> Inl e
             | Inr p \<Rightarrow>
                 (case py_index x j of
                    Inl e \<Rightarrow> Inl e
                  | Inr q \<Rightarrow>
                      (case true_divide (x ! q) d of
                         Inl e \<Rightarrow> Inl e
                       | Inr c \<Rightarrow> Inr (y[p := fadd (y ! p) c]))))
          else Inr y)"

text \<open>Line 47: the loop over one neighbour set, in the order the set is iterated.\<close>

fun inner_loop ::
  "(int \<times> nat) list \<Rightarrow> number list \<Rightarrow> int \<Rightarrow> int list \<Rightarrow> double list \<Rightarrow> error + double list" where
  "inner_loop degs x i [] y = Inr y"
| "inner_loop degs x i (j # js) y =
     (case score_step degs x i j y of
        Inl e \<Rightarrow> Inl e
      | Inr y' \<Rightarrow> inner_loop degs x i js y')"

text \<open>
  Line 46: the loop over the keys. Python iterates a set in the order of its hash table,
  which the program does not fix; \<open>iter i s\<close> is the order in which the set \<open>s\<close> stored
  under key \<open>i\<close> is iterated, a parameter of the model.
\<close>

fun outer_loop ::
  "(int \<Rightarrow> int fset \<Rightarrow> int list) \<Rightarrow> graph \<Rightarrow> (int \<times> nat) list \<Rightarrow> number list \<Rightarrow>
   int list \<Rightarrow> double list \<Rightarrow> error + double list" where
  "outer_loop iter g degs x [] y = Inr y"
| "outer_loop iter g degs x (i # ks) y =
     (case lookup g i of
        Inl e \<Rightarrow> Inl e
      | Inr s \<Rightarrow>
          (case inner_loop degs x i (iter i s) y of
             Inl e \<Rightarrow> Inl e
           | Inr y' \<Rightarrow> outer_loop iter g degs x ks y'))"

text \<open>\<^verbatim>\<open>compute_next_scores(graph, current_scores=None)\<close>, lines 32-51.\<close>

definition compute_next_scores ::
  "(int \<Rightarrow> int fset \<Rightarrow> int list) \<Rightarrow> graph \<Rightarrow> number list option \<Rightarrow> error + double list" where
  "compute_next_scores iter g current_scores =
     (let n = length g;
          x = (case current_scores of
                 None \<Rightarrow> replicate n (PyFloat (Finite 1))
               | Some cs \<Rightarrow> cs);
          y = replicate n (Finite 0)
      in outer_loop iter g (degrees g) x (map fst g) y)"

section \<open>The score update on an explicit store\<close>

text \<open>
  The functions above pass values; whether \<^verbatim>\<open>compute_next_scores\<close> changes the objects
  it is given is a question about the store. Here the store is the list of the objects
  allocated so far, an address is an index into it, and a new object goes at the end.
  Integers and floats are values; a list object holds numbers. A graph is a dict object that maps each key to the
  address of a set object, so two keys may share one set; the degree table is a dict
  from keys to integers. An address that does not hold an object of the kind an
  operation needs makes it fail with \<^verbatim>\<open>TypeError\<close>.
\<close>

datatype obj =
  ListObj "number list" | SetObj "int fset" | DictObj "(int \<times> nat) list" | DegObj "(int \<times> nat) list"

type_synonym heap = "obj list"

definition alloc :: "heap \<Rightarrow> obj \<Rightarrow> heap \<times> nat" where
  "alloc h v = (h @ [v], length h)"

definition get_list :: "heap \<Rightarrow> nat \<Rightarrow> error + number list" where
  "get_list h a =
     (if a < length h then (case h ! a of ListObj xs \<Rightarrow> Inr xs | _ \<Rightarrow> Inl TypeError)
      else Inl TypeError)"

definition get_set :: "heap \<Rightarrow> nat \<Rightarrow> error + int fset" where
  "get_set h a =
     (if a < length h then (case h ! a of SetObj s \<Rightarrow> Inr s | _ \<Rightarrow> Inl TypeError)
      else Inl TypeError)"

definition get_dict :: "heap \<Rightarrow> nat \<Rightarrow> error + (int \<times> nat) list" where
  "get_dict h a =
     (if a < length h then (case h ! a of DictObj es \<Rightarrow> Inr es | _ \<Rightarrow> Inl TypeError)
      else Inl TypeError)"

definition get_degs :: "heap \<Rightarrow> nat \<Rightarrow> error + (int \<times> nat) list" where
  "get_degs h a =
     (if a < length h then (case h ! a of DegObj ds \<Rightarrow> Inr ds | _ \<Rightarrow> Inl TypeError)
      else Inl TypeError)"

text \<open>Line 44 on the store: \<^verbatim>\<open>len(neighbors)\<close> reads each set of the graph.\<close>

fun degrees_heap :: "heap \<Rightarrow> (int \<times> nat) list \<Rightarrow> error + (int \<times> nat) list" where
  "degrees_heap h [] = Inr []"
| "degrees_heap h ((node, a) # es) =
     (case get_set h a of
        Inl e \<Rightarrow> Inl e
      | Inr s \<Rightarrow>
          (case degrees_heap h es of
             Inl e \<Rightarrow> Inl e
           | Inr ds \<Rightarrow> Inr ((node, fcard s) # ds)))"

text \<open>
  Lines 48-49 on the store: \<open>da\<close>, \<open>xa\<close> and \<open>ya\<close> are the addresses of \<^verbatim>\<open>degrees\<close>, \<^verbatim>\<open>x\<close>
  and \<^verbatim>\<open>y\<close>. The only write is the store of \<^verbatim>\<open>y[i] += ...\<close> into the list at \<open>ya\<close>.
\<close>

definition score_step_heap :: "heap \<Rightarrow> nat \<Rightarrow> nat \<Rightarrow> nat \<Rightarrow> int \<Rightarrow> int \<Rightarrow> error + heap" where
  "score_step_heap h da xa ya i j =
     (case get_degs h da of
        Inl e \<Rightarrow> Inl e
      | Inr degs \<Rightarrow>
          (case map_of degs j of
             None \<Rightarrow> Inl KeyError
           | Some d \<Rightarrow>
               if d > 0 then
                 (case get_list h ya of
                    Inl e \<Rightarrow> Inl e
                  | Inr y \<Rightarrow>
                      (case py_index y i of
                         Inl e \<Rightarrow> Inl e
                       | Inr p \<Rightarrow>
                           (case get_list h xa of
                              Inl e \<Rightarrow> Inl e
                            | Inr x \<Rightarrow>
                                (case py_index x j of
                                   Inl e \<Rightarrow> Inl e
                                 | Inr q \<Rightarrow>
                                     (case true_divide (x ! q) d of
                                        Inl e \<Rightarrow> Inl e
                                      | Inr c \<Rightarrow>
                                          (case num_add (y ! p) c of
                                             Inl e \<Rightarrow> Inl e
                                           | Inr v \<Rightarrow>
                                               Inr (h[ya := ListObj (y[p := PyFloat v])])))))))
               else Inr h))"

fun inner_loop_heap :: "heap \<Rightarrow> nat \<Rightarrow> nat \<Rightarrow> nat \<Rightarrow> int \<Rightarrow> int list \<Rightarrow> error + heap" where
  "inner_loop_heap h da xa ya i [] = Inr h"
| "inner_loop_heap h da xa ya i (j # js) =
     (case score_step_heap h da xa ya i j of
        Inl e \<Rightarrow> Inl e
      | Inr h' \<Rightarrow> inner_loop_heap h' da xa ya i js)"

text \<open>Lines 46-47 on the store: \<^verbatim>\<open>graph[i]\<close> reads the dict at \<open>ga\<close>, then the set it points to.\<close>

fun outer_loop_heap ::
  "(int \<Rightarrow> int fset \<Rightarrow> int list) \<Rightarrow> heap \<Rightarrow> nat \<Rightarrow> nat \<Rightarrow> nat \<Rightarrow> nat \<Rightarrow> int list \<Rightarrow> error + heap" where
  "outer_loop_heap iter h ga da xa ya [] = Inr h"
| "outer_loop_heap iter h ga da xa ya (i # ks) =
     (case get_dict h ga of
        Inl e \<Rightarrow> Inl e
      | Inr entries \<Rightarrow>
          (case map_of entries i of
             None \<Rightarrow> Inl KeyError
           | Some sa \<Rightarrow>
               (case get_set h sa of
                  Inl e \<Rightarrow> Inl e
                | Inr s \<Rightarrow>
                    (case inner_loop_heap h da xa ya i (iter i s) of
                       Inl e \<Rightarrow> Inl e
                     | Inr h' \<Rightarrow> outer_loop_heap iter h' ga da xa ya ks))))"

text \<open>
  \<^verbatim>\<open>compute_next_scores\<close> on the store: \<open>ga\<close> is the address of the graph, \<open>cs\<close> the address
  of the score list when one is passed. Line 39 or 41 allocates \<^verbatim>\<open>x\<close> (line 41 copies the
  list it is given), line 43 allocates \<^verbatim>\<open>y\<close>, line 44 the degree table. The result is the
  new store and the address of \<^verbatim>\<open>y\<close>.
\<close>

definition compute_next_scores_heap ::
  "(int \<Rightarrow> int fset \<Rightarrow> int list) \<Rightarrow> heap \<Rightarrow> nat \<Rightarrow> nat option \<Rightarrow> error + (heap \<times> nat)" where
  "compute_next_scores_heap iter h ga cs =
     (case get_dict h ga of
        Inl e \<Rightarrow> Inl e
      | Inr entries \<Rightarrow>
          let n = length entries in
          (case (case cs of
                   None \<Rightarrow> Inr (replicate n (PyFloat (Finite 1)))
                 | Some a \<Rightarrow> get_list h a) of
             Inl e \<Rightarrow> Inl e
           | Inr x \<Rightarrow>
               let (h1, xa) = alloc h (ListObj x);
                   (h2, ya) = alloc h1 (ListObj (replicate n (PyFloat (Finite 0))))
               in (case degrees_heap h2 entries of
                     Inl e \<Rightarrow> Inl e
                   | Inr degs \<Rightarrow>
                       let (h3, da) = alloc h2 (DegObj degs)
                       in (case outer_loop_heap iter h3 ga da xa ya (map fst entries) of
                             Inl e \<Rightarrow> Inl e
                           | Inr h' \<Rightarrow> Inr (h', ya)))))"

text \<open>The graph and the score list that the store holds at an address, as values.\<close>

definition set_at :: "heap \<Rightarrow> nat \<Rightarrow> int fset" where
  "set_at h a = (case get_set h a of Inl e \<Rightarrow> {||} | Inr s \<Rightarrow> s)"

definition graph_at :: "heap \<Rightarrow> nat \<Rightarrow> graph" where
  "graph_at h ga =
     (case get_dict h ga of Inl e \<Rightarrow> [] | Inr entries \<Rightarrow> map (\<lambda>(k, a). (k, set_at h a)) entries)"

definition scores_at :: "heap \<Rightarrow> nat option \<Rightarrow> number list option" where
  "scores_at h cs =
     (case cs of
        None \<Rightarrow> None
      | Some a \<Rightarrow> (case get_list h a of Inl e \<Rightarrow> None | Inr xs \<Rightarrow> Some xs))"

section \<open>Interactive edge addition\<close>

text \<open>
  \<^verbatim>\<open>display_graph_state\<close>, lines 55-68, only prints. The text it prints is not modelled;
  what is kept is whether it returns: \<^verbatim>\<open>scores[node]\<close> on line 65 raises \<^verbatim>\<open>IndexError\<close> for
  a node that is no index of the score list.
\<close>

definition display_graph_state :: "graph \<Rightarrow> double list \<Rightarrow> error + unit" where
  "display_graph_state g scores =
     (if g = [] then Inr ()
      else if \<forall>node \<in> set (map fst g). py_index scores node \<noteq> Inl IndexError then Inr ()
      else Inl IndexError)"

text \<open>
  What \<^verbatim>\<open>handle_user_edge_addition\<close> prints: line 78 (\<open>CannotAdd\<close>), line 88
  (\<open>OutOfRange\<close>), line 90 (\<open>DuplicateVertex\<close>), line 92 (\<open>EdgeExists\<close>), line 96
  (\<open>InvalidInput\<close>) and line 100 (\<open>Added i j\<close>).
\<close>

datatype message =
  CannotAdd | OutOfRange | DuplicateVertex | EdgeExists | InvalidInput | Added int int

text \<open>
  Lines 87-94, the checks on one pair of integers: the message of the branch taken, or
  \<open>None\<close> for the final \<^verbatim>\<open>else: break\<close>. \<^verbatim>\<open>graph[i]\<close> on line 91 raises \<^verbatim>\<open>KeyError\<close>, which
  line 95 does not catch.
\<close>

definition check_attempt :: "graph \<Rightarrow> int \<Rightarrow> int \<Rightarrow> error + message option" where
  "check_attempt g i j =
     (let n = int (length g) in
      if \<not> (0 \<le> i \<and> i < n \<and> 0 \<le> j \<and> j < n) then Inr (Some OutOfRange)
      else if i = j then Inr (Some DuplicateVertex)
      else
        (case lookup g i of
           Inl e \<Rightarrow> Inl e
         | Inr s \<Rightarrow> if j |\<in>| s then Inr (Some EdgeExists) else Inr None))"

text \<open>
  Lines 81-96, the prompt loop. Each line the user types is given by what line 85 makes
  of it: \<open>None\<close> when it raises \<^verbatim>\<open>ValueError\<close> (not two integers), \<open>Some (i, j)\<close> otherwise.
  \<^verbatim>\<open>input\<close> raises \<^verbatim>\<open>EOFError\<close> when the input has ended. The loop gives the messages
  printed, in order, and the pair it leaves with or the exception that ends it.
\<close>

fun prompt_loop ::
  "graph \<Rightarrow> (int \<times> int) option list \<Rightarrow> message list \<times> (error + int \<times> int)" where
  "prompt_loop g [] = ([], Inl EOFError)"
| "prompt_loop g (None # rest) =
     (let (out, r) = prompt_loop g rest in (InvalidInput # out, r))"
| "prompt_loop g (Some (i, j) # rest) =
     (case check_attempt g i j of
        Inl e \<Rightarrow> ([], Inl e)
      | Inr None \<Rightarrow> ([], Inr (i, j))
      | Inr (Some msg) \<Rightarrow> (let (out, r) = prompt_loop g rest in (msg # out, r)))"

text \<open>
  What a call of \<^verbatim>\<open>handle_user_edge_addition\<close> leaves: the graph object, which the
  function changes in place and which keeps the change when an exception ends the call;
  the messages printed; and the exception raised or the scores returned (the graph
  returned is the graph object itself).
\<close>

record run =
  graph_after :: graph
  printed :: "message list"
  outcome :: "error + number list option"

text \<open>
  \<^verbatim>\<open>handle_user_edge_addition(graph, current_scores)\<close>, lines 72-106, on the lines of
  input \<open>inputs\<close>. Lines 98 and 99 change the graph one after the other, line 100 prints,
  and only then lines 102 and 104 may raise.
\<close>

definition handle_user_edge_addition ::
  "(int \<Rightarrow> int fset \<Rightarrow> int list) \<Rightarrow> graph \<Rightarrow> number list option \<Rightarrow> (int \<times> int) option list \<Rightarrow>
   run" where
  "handle_user_edge_addition iter g current_scores inputs =
     (if length g < 2
      then \<lparr>graph_after = g, printed = [CannotAdd], outcome = Inr current_scores\<rparr>
      else
        (case prompt_loop g inputs of
           (out, Inl e) \<Rightarrow> \<lparr>graph_after = g, printed = out, outcome = Inl e\<rparr>
         | (out, Inr (i, j)) \<Rightarrow>
             (case add_neighbor g i j of
                Inl e \<Rightarrow> \<lparr>graph_after = g, printed = out, outcome = Inl e\<rparr>
              | Inr g1 \<Rightarrow>
                  (case add_neighbor g1 j i of
                     Inl e \<Rightarrow> \<lparr>graph_after = g1, printed = out, outcome = Inl e\<rparr>
                   | Inr g' \<Rightarrow>
                       (case compute_next_scores iter g' current_scores of
                          Inl e \<Rightarrow>
                            \<lparr>graph_after = g', printed = out @ [Added i j], outcome = Inl e\<rparr>
                        | Inr new_scores \<Rightarrow>
                            (case display_graph_state g' new_scores of
                               Inl e \<Rightarrow>
                                 \<lparr>graph_after = g', printed = out @ [Added i j],
                                  outcome = Inl e\<rparr>
                             | Inr _ \<Rightarrow>
                                 \<lparr>graph_after = g', printed = out @ [Added i j],
                                  outcome = Inr (Some (map PyFloat new_scores))\<rparr>))))))"

section \<open>The notions of the specification\<close>

text \<open>The neighbour set of a vertex (empty for an integer that is no vertex) and its degree.\<close>

definition neighbors :: "graph \<Rightarrow> int \<Rightarrow> int fset" where
  "neighbors g i = (case map_of g i of None \<Rightarrow> {||} | Some s \<Rightarrow> s)"

definition degree :: "graph \<Rightarrow> int \<Rightarrow> nat" where
  "degree g i = fcard (neighbors g i)"

text \<open>The vertices are exactly \<open>0, ..., n - 1\<close>, each a key once, where \<open>n\<close> is the number of keys.\<close>

definition vertices_ok :: "graph \<Rightarrow> bool" where
  "vertices_ok g \<longleftrightarrow> distinct (map fst g) \<and> set (map fst g) = {0..<int (length g)}"

text \<open>Every neighbour is a vertex.\<close>

definition neighbors_in_graph :: "graph \<Rightarrow> bool" where
  "neighbors_in_graph g \<longleftrightarrow> (\<forall>(i, s) \<in> set g. \<forall>j \<in> fset s. j \<in> set (map fst g))"

text \<open>Symmetry: whenever \<open>j\<close> is a neighbour of \<open>i\<close>, \<open>i\<close> is a neighbour of \<open>j\<close>.\<close>

definition symmetric :: "graph \<Rightarrow> bool" where
  "symmetric g \<longleftrightarrow> (\<forall>(i, s) \<in> set g. \<forall>j \<in> fset s. i |\<in>| neighbors g j)"

definition no_self_loops :: "graph \<Rightarrow> bool" where
  "no_self_loops g \<longleftrightarrow> (\<forall>(i, s) \<in> set g. i |\<notin>| s)"

text \<open>The number of undirected edges: the pairs \<open>u < v\<close> with \<open>v\<close> a neighbour of \<open>u\<close>.\<close>

definition edge_count :: "graph \<Rightarrow> nat" where
  "edge_count g = (\<Sum>(u, s) \<leftarrow> g. fcard (ffilter (\<lambda>v. u < v) s))"

text \<open>The rational a finite number denotes.\<close>

fun num_value :: "number \<Rightarrow> rat option" where
  "num_value (PyInt a) = Some (of_int a)"
| "num_value (PyFloat (Finite a)) = Some a"
| "num_value (PyFloat _) = None"

text \<open>The set iteration orders the model admits on a graph: each lists its set once.\<close>

definition enumerates :: "(int \<Rightarrow> int fset \<Rightarrow> int list) \<Rightarrow> graph \<Rightarrow> bool" where
  "enumerates iter g \<longleftrightarrow> (\<forall>(i, s) \<in> set g. set (iter i s) = fset s \<and> distinct (iter i s))"

section \<open>Dictionary updates\<close>

lemma lookup_Inr_iff: "lookup g u = Inr s \<longleftrightarrow> map_of g u = Some s"
  by (simp add: lookup_def split: option.splits)

lemma lookup_key: "u \<in> fst ` set g \<Longrightarrow> lookup g u = Inr (neighbors g u)"
  by (auto simp: lookup_def neighbors_def split: option.splits dest: weak_map_of_SomeI simp: map_of_eq_None_iff)

lemma add_neighbor_key:
  assumes "u \<in> fst ` set g"
  shows "add_neighbor g u v = Inr (AList.update u (finsert v (neighbors g u)) g)"
  using assms by (simp add: add_neighbor_def lookup_key)

lemma keys_update: "u \<in> fst ` set g \<Longrightarrow> map fst (AList.update u s g) = map fst g"
  by (simp add: update_keys)

lemma neighbors_update:
  "neighbors (AList.update u s g) k = (if k = u then s else neighbors g k)"
  by (simp add: neighbors_def update_conv')

lemma add_edge_key:
  assumes "u \<in> fst ` set g" "v \<in> fst ` set g"
  shows "\<exists>g'. add_edge g u v = Inr g' \<and> map fst g' = map fst g \<and>
     (\<forall>k. neighbors g' k = (if k = u \<and> k = v then finsert v (neighbors g k) else if k = u then finsert v (neighbors g k)
                           else if k = v then finsert u (neighbors g k) else neighbors g k))"
  using assms
  by (auto simp: add_edge_def add_neighbor_key keys_update neighbors_update dom_update)

lemma add_edges_keys:
  assumes "\<forall>(u, v) \<in> set es. u \<in> fst ` set g \<and> v \<in> fst ` set g"
  shows "\<exists>g'. add_edges g es = Inr g' \<and> map fst g' = map fst g \<and>
     (\<forall>k. fset (neighbors g' k) =
        fset (neighbors g k) \<union> {v. (k, v) \<in> set es} \<union> {u. (u, k) \<in> set es})"
  using assms
proof (induction es arbitrary: g)
  case Nil
  then show ?case by simp
next
  case (Cons e es)
  obtain u v where e: "e = (u, v)" by (cases e)
  from Cons.prems e have uv: "u \<in> fst ` set g" "v \<in> fst ` set g" by auto
  from add_edge_key[OF uv] obtain g1 where g1: "add_edge g u v = Inr g1" "map fst g1 = map fst g"
    and n1: "\<And>k. neighbors g1 k = (if k = u \<and> k = v then finsert v (neighbors g k) else if k = u then finsert v (neighbors g k)
                           else if k = v then finsert u (neighbors g k) else neighbors g k)"
    by blast
  have "fst ` set g1 = fst ` set g" using g1(2) by (metis set_map)
  with Cons.prems have "\<forall>(u, v) \<in> set es. u \<in> fst ` set g1 \<and> v \<in> fst ` set g1" by auto
  from Cons.IH[OF this] obtain g' where g': "add_edges g1 es = Inr g'" "map fst g' = map fst g1"
    and n': "\<And>k. fset (neighbors g' k) =
        fset (neighbors g1 k) \<union> {v. (k, v) \<in> set es} \<union> {u. (u, k) \<in> set es}" by blast
  have "add_edges g (e # es) = Inr g'" using e g1 g' by simp
  moreover have "map fst g' = map fst g" using g1 g' by simp
  moreover have "\<And>k. fset (neighbors g' k) =
        fset (neighbors g k) \<union> {v. (k, v) \<in> set (e # es)} \<union> {u. (u, k) \<in> set (e # es)}"
    unfolding n' n1 e by auto
  ultimately show ?case by blast
qed

section \<open>The list of possible edges\<close>

lemma set_possible_edges: "set (possible_edges n) = {(i, j). 0 \<le> i \<and> i < j \<and> j < n}"
proof -
  have "(a, b) \<in> set (possible_edges n) \<longleftrightarrow> 0 \<le> a \<and> a < b \<and> b < n" for a b
    by (auto simp: possible_edges_def intro!: bexI[where x=a])
  then show ?thesis by auto
qed

lemma distinct_pairs:
  "distinct xs \<Longrightarrow> (\<And>i. distinct (f i)) \<Longrightarrow> distinct (concat (map (\<lambda>i. map (\<lambda>j. (i, j)) (f i)) xs))"
  by (induction xs) (auto simp: distinct_map inj_on_def)

lemma distinct_possible_edges: "distinct (possible_edges n)"
  unfolding possible_edges_def by (simp add: distinct_pairs)

lemma sum_list_Suc: "(\<Sum>i\<leftarrow>xs. Suc (f i)) = (\<Sum>i\<leftarrow>xs. f i) + length xs"
  by (induction xs) auto

lemma sum_upto_aux: "(\<Sum>i\<leftarrow>[0..int k]. nat (int k - i)) * 2 = k * (k + 1)"
proof (induction k)
  case 0
  then show ?case by simp
next
  case (Suc k)
  have "[0..int (Suc k)] = [0..int k] @ [int k + 1]"
    by (simp add: upto_rec2)
  moreover have "(\<Sum>i\<leftarrow>[0..int k]. nat (int (Suc k) - i)) = (\<Sum>i\<leftarrow>[0..int k]. Suc (nat (int k - i)))"
    by (intro arg_cong[where f=sum_list] map_cong) auto
  ultimately have "(\<Sum>i\<leftarrow>[0..int (Suc k)]. nat (int (Suc k) - i)) = (\<Sum>i\<leftarrow>[0..int k]. nat (int k - i)) + Suc k"
    by (simp add: sum_list_Suc)
  then show ?case using Suc by (simp add: algebra_simps)
qed

lemma length_possible_edges:
  assumes "0 \<le> n"
  shows "length (possible_edges n) = nat (n * (n - 1) div 2)"
proof (cases "n > 1")
  case False
  with assms have "n = 0 \<or> n = 1" by auto
  then show ?thesis by (auto simp: possible_edges_def)
next
  case True
  define k where "k = nat (n - 1)"
  have k: "n = int k + 1" using True by (simp add: k_def)
  have "length (possible_edges n) = (\<Sum>i\<leftarrow>[0..int k]. nat (int k - i))"
    using True by (simp add: possible_edges_def k length_concat comp_def)
  then have "length (possible_edges n) * 2 = k * (k + 1)" using sum_upto_aux by simp
  moreover have "n * (n - 1) = int (k * (k + 1))" by (simp add: k algebra_simps)
  ultimately have "n * (n - 1) = int (length (possible_edges n)) * 2"
    by (metis of_nat_mult of_nat_numeral)
  then show ?thesis by simp
qed

section \<open>Properties of graph generation\<close>

lemma neighbors_entry: "distinct (map fst g) \<Longrightarrow> (i, s) \<in> set g \<Longrightarrow> neighbors g i = s"
  by (simp add: neighbors_def)

lemma neighbors_empty_graph: "neighbors (map (\<lambda>i. (i, {||})) ks) k = {||}"
  by (induction ks) (auto simp: neighbors_def)

lemma sum_list_entries:
  "distinct (map fst g) \<Longrightarrow> (\<Sum>(u, s)\<leftarrow>g. f u s) = (\<Sum>u\<leftarrow>map fst g. f u (neighbors g u))"
proof -
  assume d: "distinct (map fst g)"
  have "sum_list (map (\<lambda>(u, s). f u s) g) = sum_list (map (\<lambda>p. f (fst p) (neighbors g (fst p))) g)"
    by (rule arg_cong[where f = sum_list], rule map_cong) (auto simp: neighbors_entry[OF d])
  then show ?thesis by (simp add: comp_def)
qed

lemma edge_count_sum:
  assumes "distinct (map fst g)"
  shows "edge_count g = (\<Sum>u\<in>set (map fst g). card {v \<in> fset (neighbors g u). u < v})"
proof -
  have "edge_count g = (\<Sum>u\<leftarrow>map fst g. fcard (ffilter (\<lambda>v. u < v) (neighbors g u)))"
    unfolding edge_count_def using assms by (rule sum_list_entries)
  also have "\<dots> = (\<Sum>u\<in>set (map fst g). fcard (ffilter (\<lambda>v. u < v) (neighbors g u)))"
    using assms by (rule sum_list_distinct_conv_sum_set)
  also have "\<dots> = (\<Sum>u\<in>set (map fst g). card {v \<in> fset (neighbors g u). u < v})"
    by (intro sum.cong refl) (auto simp: fcard.rep_eq intro!: arg_cong[where f = card])
  finally show ?thesis .
qed

lemma card_fibres:
  assumes "finite E" "fst ` E \<subseteq> A" "finite A"
  shows "card E = (\<Sum>u\<in>A. card {v. (u, v) \<in> E})"
proof -
  have "E = (SIGMA u:A. {v. (u, v) \<in> E})" using assms(2) by auto
  moreover have "\<forall>u\<in>A. finite {v. (u, v) \<in> E}"
  proof
    fix u
    have "{v. (u, v) \<in> E} \<subseteq> snd ` E" by force
    then show "finite {v. (u, v) \<in> E}" using assms(1) by (meson finite_imageI finite_subset)
  qed
  ultimately show ?thesis using card_SigmaI[OF assms(3), of "\<lambda>u. {v. (u, v) \<in> E}"] by simp
qed

lemma entry_of_key: "distinct (map fst g) \<Longrightarrow> i \<in> fst ` set g \<Longrightarrow> (i, neighbors g i) \<in> set g"
  by (auto simp: neighbors_def)

lemma neighbors_nonempty_key: "j |\<in>| neighbors g i \<Longrightarrow> i \<in> fst ` set g"
  by (auto simp: neighbors_def map_of_eq_None_iff split: option.splits dest: map_of_SomeD intro: rev_image_eqI)

lemma symmetric_neighbors_in_graph: "symmetric g \<Longrightarrow> neighbors_in_graph g"
  unfolding symmetric_def neighbors_in_graph_def
  by (fastforce dest: neighbors_nonempty_key)

lemma symmetric_iff:
  assumes "distinct (map fst g)" "symmetric g"
  shows "j |\<in>| neighbors g i \<longleftrightarrow> i |\<in>| neighbors g j"
proof -
  have "b |\<in>| neighbors g a \<Longrightarrow> a |\<in>| neighbors g b" for a b
  proof -
    assume b: "b |\<in>| neighbors g a"
    then have "(a, neighbors g a) \<in> set g"
      using entry_of_key[OF assms(1)] neighbors_nonempty_key by blast
    with assms(2) b show "a |\<in>| neighbors g b" by (auto simp: symmetric_def)
  qed
  then show ?thesis by blast
qed

lemma symmetricI:
  assumes "distinct (map fst g)" "\<And>a b. b |\<in>| neighbors g a \<Longrightarrow> a |\<in>| neighbors g b"
  shows "symmetric g"
  unfolding symmetric_def using neighbors_entry[OF assms(1)] assms(2) by fastforce

lemma no_self_loops_iff:
  assumes "distinct (map fst g)"
  shows "no_self_loops g \<longleftrightarrow> (\<forall>a. a |\<notin>| neighbors g a)"
proof
  assume l: "no_self_loops g"
  show "\<forall>a. a |\<notin>| neighbors g a"
  proof
    fix a
    show "a |\<notin>| neighbors g a"
    proof
      assume a: "a |\<in>| neighbors g a"
      then have "(a, neighbors g a) \<in> set g"
        using entry_of_key[OF assms] neighbors_nonempty_key by blast
      with l a show False by (auto simp: no_self_loops_def)
    qed
  qed
next
  assume "\<forall>a. a |\<notin>| neighbors g a"
  then show "no_self_loops g"
    unfolding no_self_loops_def using neighbors_entry[OF assms] by fastforce
qed

text \<open>Consequences of the invariants: twice the number of edges is the sum of the degrees.\<close>

lemma degree_sum_twice_edges:
  assumes dist: "distinct (map fst g)" and s: "symmetric g" and l: "no_self_loops g"
  shows "(\<Sum>(u, s)\<leftarrow>g. fcard s) = 2 * edge_count g"
proof -
  let ?V = "set (map fst g)"
  let ?N = "\<lambda>u. fset (neighbors g u)"
  have sub: "?N u \<subseteq> ?V" for u
    using symmetric_iff[OF dist s] neighbors_nonempty_key[of _ g] by fastforce
  have loop: "u \<notin> ?N u" for u
    using l no_self_loops_iff[OF dist] by simp
  have up: "card {v \<in> ?N u. u < v} = (\<Sum>v\<in>?V. if v \<in> ?N u \<and> u < v then 1 else 0)" for u
  proof -
    have "{v \<in> ?N u. u < v} = ?V \<inter> {v. v \<in> ?N u \<and> u < v}" using sub[of u] by auto
    then have "card {v \<in> ?N u. u < v} = (\<Sum>v\<in>?V \<inter> {v. v \<in> ?N u \<and> u < v}. 1)" by simp
    also have "\<dots> = (\<Sum>v\<in>?V. if v \<in> {v. v \<in> ?N u \<and> u < v} then 1 else 0)"
      by (rule sum.inter_restrict) simp
    finally show ?thesis by simp
  qed
  have down: "card {v \<in> ?N u. v < u} = (\<Sum>v\<in>?V. if v \<in> ?N u \<and> v < u then 1 else 0)" for u
  proof -
    have "{v \<in> ?N u. v < u} = ?V \<inter> {v. v \<in> ?N u \<and> v < u}" using sub[of u] by auto
    then have "card {v \<in> ?N u. v < u} = (\<Sum>v\<in>?V \<inter> {v. v \<in> ?N u \<and> v < u}. 1)" by simp
    also have "\<dots> = (\<Sum>v\<in>?V. if v \<in> {v. v \<in> ?N u \<and> v < u} then 1 else 0)"
      by (rule sum.inter_restrict) simp
    finally show ?thesis by simp
  qed
  have split: "card (?N u) = card {v \<in> ?N u. u < v} + card {v \<in> ?N u. v < u}" for u
  proof -
    have "v \<in> ?N u \<Longrightarrow> u < v \<or> v < u" for v
      using loop[of u] by (cases "u = v") auto
    then have "?N u = {v \<in> ?N u. u < v} \<union> {v \<in> ?N u. v < u}" by auto
    moreover have "{v \<in> ?N u. u < v} \<inter> {v \<in> ?N u. v < u} = {}" by auto
    ultimately show ?thesis
      using card_Un_disjoint[of "{v \<in> ?N u. u < v}" "{v \<in> ?N u. v < u}"] by simp
  qed
  have "(\<Sum>u\<in>?V. card {v \<in> ?N u. v < u}) = (\<Sum>u\<in>?V. \<Sum>v\<in>?V. if v \<in> ?N u \<and> v < u then 1 else 0)"
    by (simp only: down)
  also have "\<dots> = (\<Sum>v\<in>?V. \<Sum>u\<in>?V. if v \<in> ?N u \<and> v < u then 1 else 0)"
    by (rule sum.swap)
  also have "\<dots> = (\<Sum>v\<in>?V. \<Sum>u\<in>?V. if u \<in> ?N v \<and> v < u then 1 else 0)"
    using symmetric_iff[OF dist s] by simp
  also have "\<dots> = (\<Sum>v\<in>?V. card {u \<in> ?N v. v < u})"
    by (simp only: up)
  finally have swap: "(\<Sum>u\<in>?V. card {v \<in> ?N u. v < u}) = (\<Sum>u\<in>?V. card {v \<in> ?N u. u < v})" .
  have "(\<Sum>(u, s)\<leftarrow>g. fcard s) = (\<Sum>u\<leftarrow>map fst g. fcard (neighbors g u))"
    using dist by (rule sum_list_entries)
  also have "\<dots> = (\<Sum>u\<in>?V. fcard (neighbors g u))"
    using dist by (rule sum_list_distinct_conv_sum_set)
  also have "\<dots> = (\<Sum>u\<in>?V. card {v \<in> ?N u. u < v} + card {v \<in> ?N u. v < u})"
    using split by (simp add: fcard.rep_eq)
  also have "\<dots> = (\<Sum>u\<in>?V. card {v \<in> ?N u. u < v}) + (\<Sum>u\<in>?V. card {v \<in> ?N u. v < u})"
    by (rule sum.distrib)
  also have "\<dots> = 2 * edge_count g"
    unfolding swap edge_count_sum[OF dist] by simp
  finally show ?thesis .
qed

lemma generate_valid:
  assumes perm: "mset (shuffle (possible_edges n)) = mset (possible_edges n)"
    and n: "0 \<le> n" and m: "0 \<le> m" "m \<le> n * (n - 1) div 2"
  shows "\<exists>g. generate_random_graph shuffle n m = Inr g \<and> map fst g = [0..n - 1] \<and>
     card (set (take (nat m) (shuffle (possible_edges n)))) = nat m \<and>
     set (take (nat m) (shuffle (possible_edges n))) \<subseteq> {(i, j). 0 \<le> i \<and> i < j \<and> j < n} \<and>
     (\<forall>k. fset (neighbors g k) =
        {v. (k, v) \<in> set (take (nat m) (shuffle (possible_edges n)))} \<union>
        {u. (u, k) \<in> set (take (nat m) (shuffle (possible_edges n)))})"
proof -
  let ?es = "take (nat m) (shuffle (possible_edges n))"
  let ?g0 = "map (\<lambda>i. (i, {||})) [0..n - 1] :: graph"
  have sub: "set ?es \<subseteq> {(i, j). 0 \<le> i \<and> i < j \<and> j < n}"
    using set_take_subset[of "nat m" "shuffle (possible_edges n)"] mset_eq_setD[OF perm]
    by (simp add: set_possible_edges)
  have "distinct (shuffle (possible_edges n))"
    using mset_eq_imp_distinct_iff[OF perm] distinct_possible_edges by simp
  then have dist: "distinct ?es" by simp
  have "length (shuffle (possible_edges n)) = nat (n * (n - 1) div 2)"
    using mset_eq_length[OF perm] length_possible_edges[OF n] by simp
  then have len: "length ?es = nat m" using m by simp
  have keys: "fst ` set ?g0 = {0..n - 1}" by force
  have "\<forall>(u, v) \<in> set ?es. u \<in> fst ` set ?g0 \<and> v \<in> fst ` set ?g0"
    unfolding keys using sub by auto
  from add_edges_keys[OF this] obtain g where G: "add_edges ?g0 ?es = Inr g \<and> map fst g = map fst ?g0 \<and>
      (\<forall>k. fset (neighbors g k) = fset (neighbors ?g0 k) \<union> {v. (k, v) \<in> set ?es} \<union> {u. (u, k) \<in> set ?es})"
    ..
  then have g: "add_edges ?g0 ?es = Inr g" "map fst g = map fst ?g0"
    and nb: "\<forall>k. fset (neighbors g k) = fset (neighbors ?g0 k) \<union> {v. (k, v) \<in> set ?es} \<union> {u. (u, k) \<in> set ?es}"
    by simp_all
  have "generate_random_graph shuffle n m = Inr g"
    using n m g(1) by (simp add: generate_random_graph_def Let_def)
  moreover have "map fst g = [0..n - 1]" using g(2) by (simp add: comp_def)
  moreover have "card (set ?es) = nat m" using dist len distinct_card by fastforce
  moreover note sub
  moreover have "\<forall>k. fset (neighbors g k) = {v. (k, v) \<in> set ?es} \<union> {u. (u, k) \<in> set ?es}"
    using nb by (simp add: neighbors_empty_graph)
  ultimately show ?thesis by blast
qed

lemma floor_half: "real_of_int (n * (n - 1) div 2) = real_of_int n * (real_of_int n - 1) / 2"
proof -
  have "even (n * (n - 1))" by simp
  then have "real_of_int (n * (n - 1) div 2) = real_of_int (n * (n - 1)) / 2"
    by (simp add: real_of_int_div)
  then show ?thesis by simp
qed

text \<open>
  Claim C1. For \<open>n \<ge> 0\<close> and \<open>0 \<le> m \<le> n (n - 1) / 2\<close>, and whatever permutation the
  shuffle leaves, \<open>generate_random_graph\<close> returns a graph whose keys are \<open>0, ..., n - 1\<close>
  (each present, also with degree 0), with exactly \<open>m\<close> undirected edges (the degrees
  add up to \<open>2 m\<close>), no self-loop, every neighbour a vertex, and symmetric adjacency.
\<close>

theorem generate_graph_correct:
  assumes "mset (shuffle (possible_edges n)) = mset (possible_edges n)"
    and "0 \<le> n" and "0 \<le> m" and "real_of_int m \<le> real_of_int n * (real_of_int n - 1) / 2"
  shows "\<exists>g. generate_random_graph shuffle n m = Inr g \<and> map fst g = [0..n - 1] \<and>
           edge_count g = nat m \<and> (\<Sum>(u, s)\<leftarrow>g. fcard s) = 2 * nat m \<and>
           no_self_loops g \<and> symmetric g \<and> neighbors_in_graph g \<and>
           (\<forall>i j. j |\<in>| neighbors g i \<longleftrightarrow> i |\<in>| neighbors g j)"
proof -
  let ?E = "set (take (nat m) (shuffle (possible_edges n)))"
  have "m \<le> n * (n - 1) div 2"
    using assms(4) floor_half[of n] by (metis of_int_le_iff)
  with generate_valid[of shuffle n m] assms(1-3)
  obtain g where G: "generate_random_graph shuffle n m = Inr g \<and> map fst g = [0..n - 1] \<and>
      card ?E = nat m \<and> ?E \<subseteq> {(i, j). 0 \<le> i \<and> i < j \<and> j < n} \<and>
      (\<forall>k. fset (neighbors g k) = {v. (k, v) \<in> ?E} \<union> {u. (u, k) \<in> ?E})"
    by blast
  then have keys: "map fst g = [0..n - 1]" and card: "card ?E = nat m"
    and sub: "?E \<subseteq> {(i, j). 0 \<le> i \<and> i < j \<and> j < n}"
    and nb: "\<And>k. fset (neighbors g k) = {v. (k, v) \<in> ?E} \<union> {u. (u, k) \<in> ?E}"
    by simp_all
  have dist: "distinct (map fst g)" by (simp add: keys)
  have entry: "neighbors g i = s" if "(i, s) \<in> set g" for i s
    using neighbors_entry[OF dist that] .
  have iff: "j |\<in>| neighbors g i \<longleftrightarrow> i |\<in>| neighbors g j" for i j
    by (auto simp: nb)
  have "symmetric g"
    unfolding symmetric_def using entry iff by fastforce
  moreover have "no_self_loops g"
    unfolding no_self_loops_def
  proof clarify
    fix i s assume "(i, s) \<in> set g" "i |\<in>| s"
    then have "i \<in> fset (neighbors g i)" using entry by simp
    then have "(i, i) \<in> ?E" unfolding nb by simp
    then show False using sub by auto
  qed
  moreover have "neighbors_in_graph g"
    unfolding neighbors_in_graph_def
  proof clarify
    fix i s j assume "(i, s) \<in> set g" "j |\<in>| s"
    then have "j \<in> fset (neighbors g i)" using entry by simp
    then have "(i, j) \<in> ?E \<or> (j, i) \<in> ?E" unfolding nb by simp
    then have "0 \<le> j \<and> j < n" using sub by auto
    then show "j \<in> set (map fst g)" by (simp add: keys)
  qed
  moreover have "edge_count g = nat m"
  proof -
    have "edge_count g = (\<Sum>u\<in>{0..n - 1}. card {v \<in> fset (neighbors g u). u < v})"
      using edge_count_sum[OF dist] by (simp add: keys)
    also have "\<dots> = (\<Sum>u\<in>{0..n - 1}. card {v. (u, v) \<in> ?E})"
    proof (intro sum.cong refl arg_cong[where f = card])
      fix u
      show "{v \<in> fset (neighbors g u). u < v} = {v. (u, v) \<in> ?E}"
        unfolding nb using sub by auto
    qed
    also have "\<dots> = card ?E"
    proof (rule card_fibres[symmetric])
      show "fst ` ?E \<subseteq> {0..n - 1}" using sub by auto
    qed simp_all
    finally show ?thesis using card by simp
  qed
  ultimately have inv: "symmetric g" "no_self_loops g" "neighbors_in_graph g" "edge_count g = nat m"
    by simp_all
  have "(\<Sum>(u, s)\<leftarrow>g. fcard s) = 2 * nat m"
    using degree_sum_twice_edges[OF dist inv(1,2)] inv(4) by simp
  with inv G iff show ?thesis by blast
qed

theorem generate_graph_correct_witness:
  "\<exists>g. generate_random_graph rev 3 2 = Inr g \<and> map fst g = [0..3 - 1] \<and>
           edge_count g = nat 2 \<and> (\<Sum>(u, s)\<leftarrow>g. fcard s) = 2 * nat 2 \<and>
           no_self_loops g \<and> symmetric g \<and> neighbors_in_graph g \<and>
           (\<forall>i j. j |\<in>| neighbors g i \<longleftrightarrow> i |\<in>| neighbors g j)"
  using generate_graph_correct[of rev 3 2] by simp

text \<open>
  Claim C3. \<open>generate_random_graph\<close> raises \<^verbatim>\<open>ValueError\<close> exactly when \<open>n < 0\<close>, or
  \<open>m < 0\<close>, or \<open>m > n (n - 1) / 2\<close> (the exact quotient: the floor division of line 9
  loses nothing, \<open>n (n - 1)\<close> being even); in every other case it returns a graph.
\<close>

theorem generate_fails_iff:
  assumes "mset (shuffle (possible_edges n)) = mset (possible_edges n)"
  shows "(generate_random_graph shuffle n m = Inl ValueError \<longleftrightarrow>
            n < 0 \<or> m < 0 \<or> real_of_int m > real_of_int n * (real_of_int n - 1) / 2) \<and>
         (\<not> (n < 0 \<or> m < 0 \<or> real_of_int m > real_of_int n * (real_of_int n - 1) / 2) \<longrightarrow>
            (\<exists>g. generate_random_graph shuffle n m = Inr g))"
proof (cases "n < 0 \<or> m < 0 \<or> m > n * (n - 1) div 2")
  case True
  then have "generate_random_graph shuffle n m = Inl ValueError"
    by (auto simp: generate_random_graph_def Let_def)
  moreover have "n < 0 \<or> m < 0 \<or> real_of_int m > real_of_int n * (real_of_int n - 1) / 2"
    using True floor_half[of n] by (metis of_int_less_iff)
  ultimately show ?thesis by simp
next
  case False
  then have v: "0 \<le> n" "0 \<le> m" "m \<le> n * (n - 1) div 2" by auto
  from generate_valid[of shuffle n m] assms v obtain g where "generate_random_graph shuffle n m = Inr g" by blast
  moreover have "\<not> (n < 0 \<or> m < 0 \<or> real_of_int m > real_of_int n * (real_of_int n - 1) / 2)"
    using False floor_half[of n] by (metis of_int_less_iff)
  ultimately show ?thesis by simp
qed

theorem generate_fails_iff_witness:
  "generate_random_graph rev 3 2 \<noteq> Inl ValueError \<and> (\<exists>g. generate_random_graph rev 3 2 = Inr g)
   \<and> generate_random_graph rev 3 4 = Inl ValueError"
  using generate_fails_iff[of rev 3 2] generate_fails_iff[of rev 3 4] by simp

section \<open>Rounding to a double\<close>

lemma bitlen_powi:
  assumes "0 < (x::int)"
  shows "(2::rat) powi (bitlen x - 1) \<le> of_int x \<and> of_int x < (2::rat) powi (bitlen x)"
proof -
  from bitlen_bounds[OF assms] have b: "2 ^ nat (bitlen x - 1) \<le> x" "x < 2 ^ nat (bitlen x)" by simp_all
  have pos: "bitlen x \<ge> 1" using assms by (auto simp: bitlen_alt_def)
  have "(of_int (2 ^ nat (bitlen x - 1)) :: rat) \<le> of_int x" using b(1) by (rule of_int_le_iff[THEN iffD2])
  moreover have "(of_int x :: rat) < of_int (2 ^ nat (bitlen x))" using b(2) by (rule of_int_less_iff[THEN iffD2])
  ultimately show ?thesis using pos by (simp add: power_int_def)
qed

lemma ilog2_bounds:
  assumes "0 < r"
  shows "2 powi (ilog2 r) \<le> r \<and> r < 2 powi (ilog2 r + 1)"
proof -
  obtain p q where pq: "quotient_of r = (p, q)" by (cases "quotient_of r")
  then have q: "0 < q" and r: "r = of_int p / of_int q"
    using quotient_of_denom_pos quotient_of_div by blast+
  have p: "0 < p" using assms q r by (simp add: zero_less_divide_iff)
  define e where "e = bitlen p - bitlen q"
  note bp = bitlen_powi[OF p] and bq = bitlen_powi[OF q]
  have qpos: "(0::rat) < of_int q" using q by simp
  have up: "r < 2 powi (e + 1)"
  proof -
    have "r < 2 powi (bitlen p) / of_int q" unfolding r using bp qpos by (simp add: divide_strict_right_mono)
    also have "\<dots> \<le> 2 powi (bitlen p) / 2 powi (bitlen q - 1)"
      using bq qpos by (intro divide_left_mono) (auto intro!: mult_pos_pos)
    also have "\<dots> = 2 powi (e + 1)" by (simp add: e_def power_int_diff power_int_add)
    finally show ?thesis .
  qed
  have low: "2 powi (e - 1) \<le> r"
  proof -
    have "(2::rat) powi (e - 1) = 2 powi (bitlen p - 1) / 2 powi (bitlen q)"
      by (simp add: e_def power_int_diff power_int_add)
    also have "\<dots> \<le> 2 powi (bitlen p - 1) / of_int q"
      using bq qpos by (intro divide_left_mono) (auto intro!: mult_pos_pos less_imp_le)
    also have "\<dots> \<le> r" unfolding r using bp qpos by (simp add: divide_right_mono)
    finally show ?thesis .
  qed
  have i: "ilog2 r = (if 2 powi e \<le> r then e else e - 1)"
    by (simp add: ilog2_def pq e_def Let_def)
  show ?thesis
  proof (cases "2 powi e \<le> r")
    case True
    then show ?thesis using up i by simp
  next
    case False
    then show ?thesis using low i by simp
  qed
qed

lemma ilog2_unique:
  assumes "2 powi e \<le> r" "r < 2 powi (e + 1)"
  shows "ilog2 r = e"
proof -
  have "0 < r" using assms(1) by (rule less_le_trans[rotated]) simp
  note b = ilog2_bounds[OF this]
  have 1: "e < ilog2 r + 1"
  proof (rule ccontr)
    assume "\<not> e < ilog2 r + 1"
    then have "(2::rat) powi (ilog2 r + 1) \<le> 2 powi e" by (intro power_int_increasing) simp_all
    with assms(1) b show False by linarith
  qed
  have 2: "ilog2 r < e + 1"
  proof (rule ccontr)
    assume "\<not> ilog2 r < e + 1"
    then have "(2::rat) powi (e + 1) \<le> 2 powi (ilog2 r)" by (intro power_int_increasing) simp_all
    with assms(2) b show False by linarith
  qed
  from 1 2 show ?thesis by simp
qed


lemma round_half_even_near:
  assumes "\<bar>z - of_int m\<bar> < 1 / 2"
  shows "round_half_even z = m"
proof (cases "of_int m \<le> z")
  case True
  then have "\<lfloor>z\<rfloor> = m" using assms by (intro floor_unique) linarith+
  then show ?thesis using assms True by (simp add: round_half_even_def Let_def)
next
  case False
  then have f: "\<lfloor>z\<rfloor> = m - 1" using assms by (intro floor_unique) (simp, linarith)+
  have "\<not> z - of_int (m - 1) < 1 / 2" "z - of_int (m - 1) > 1 / 2" using assms False by (simp, linarith)+
  then show ?thesis by (simp add: round_half_even_def Let_def f)
qed

lemma round_half_even_tie:
  assumes "z = of_int m + 1 / 2 \<or> z = of_int m - 1 / 2" "even m"
  shows "round_half_even z = m"
proof -
  from assms(1) show ?thesis
  proof
    assume z: "z = of_int m + 1 / 2"
    then have "\<lfloor>z\<rfloor> = m" by (intro floor_unique) simp_all
    then show ?thesis using z assms(2) by (simp add: round_half_even_def Let_def)
  next
    assume z: "z = of_int m - 1 / 2"
    then have f: "\<lfloor>z\<rfloor> = m - 1" by (intro floor_unique) simp_all
    have "z - of_int (m - 1) = 1 / 2" using z by simp
    then show ?thesis using assms(2) by (simp add: round_half_even_def Let_def f)
  qed
qed

lemma round_double_eqI:
  assumes "r \<noteq> 0" and "2 powi e \<le> \<bar>r\<bar>" and "\<bar>r\<bar> < 2 powi (e + 1)"
    and "q = max (e - 52) (- 1074)"
    and "round_half_even (\<bar>r\<bar> / 2 powi q) = m"
    and "of_int m * 2 powi q < (2::rat) powi 1024"
    and "v = (if r > 0 then of_int m * 2 powi q else - (of_int m * 2 powi q))"
  shows "round_double r = Finite v"
proof -
  have e: "ilog2 \<bar>r\<bar> = e" using assms(2,3) by (rule ilog2_unique)
  have "round_double r =
      (if of_int m * 2 powi q \<ge> (2::rat) powi 1024 then (if r > 0 then PInf else NInf)
       else Finite (if r > 0 then of_int m * 2 powi q else - (of_int m * 2 powi q)))"
    unfolding round_double_def Let_def e assms(4)[symmetric] assms(5) using assms(1) by simp
  then show ?thesis using assms(6,7) by (simp only: not_le[symmetric] if_False)
qed

lemma round_double_nearI:
  assumes "r \<noteq> 0" and "2 powi e \<le> \<bar>r\<bar>" and "\<bar>r\<bar> < 2 powi (e + 1)"
    and "q = max (e - 52) (- 1074)"
    and "\<bar>\<bar>r\<bar> / 2 powi q - of_int m\<bar> < 1 / 2"
    and "of_int m * 2 powi q < (2::rat) powi 1024"
    and "v = (if r > 0 then of_int m * 2 powi q else - (of_int m * 2 powi q))"
  shows "round_double r = Finite v"
  using assms(1-4) round_half_even_near[OF assms(5)] assms(6,7) by (rule round_double_eqI)

lemma round_double_tieI:
  assumes "r \<noteq> 0" and "2 powi e \<le> \<bar>r\<bar>" and "\<bar>r\<bar> < 2 powi (e + 1)"
    and "q = max (e - 52) (- 1074)"
    and "\<bar>r\<bar> / 2 powi q = of_int m + 1 / 2 \<or> \<bar>r\<bar> / 2 powi q = of_int m - 1 / 2" and "even m"
    and "of_int m * 2 powi q < (2::rat) powi 1024"
    and "v = (if r > 0 then of_int m * 2 powi q else - (of_int m * 2 powi q))"
  shows "round_double r = Finite v"
  using assms(1-4) round_half_even_tie[OF assms(5,6)] assms(7,8) by (rule round_double_eqI)

lemma round_double_overflowI:
  assumes "r \<noteq> 0" and "2 powi e \<le> \<bar>r\<bar>" and "\<bar>r\<bar> < 2 powi (e + 1)"
    and "q = max (e - 52) (- 1074)"
    and "round_half_even (\<bar>r\<bar> / 2 powi q) = m"
    and "(2::rat) powi 1024 \<le> of_int m * 2 powi q"
  shows "round_double r = (if r > 0 then PInf else NInf)"
proof -
  have e: "ilog2 \<bar>r\<bar> = e" using assms(2,3) by (rule ilog2_unique)
  have "round_double r =
      (if of_int m * 2 powi q \<ge> (2::rat) powi 1024 then (if r > 0 then PInf else NInf)
       else Finite (if r > 0 then of_int m * 2 powi q else - (of_int m * 2 powi q)))"
    unfolding round_double_def Let_def e assms(4)[symmetric] assms(5) using assms(1) by simp
  then show ?thesis using assms(6) by (simp only: if_True)
qed

lemma powi_less_imp_less: "(2::rat) powi a < 2 powi b \<Longrightarrow> a < b"
proof (rule ccontr)
  assume l: "(2::rat) powi a < 2 powi b" and "\<not> a < b"
  then have "(2::rat) powi b \<le> 2 powi a" by (intro power_int_increasing) simp_all
  with l show False by simp
qed

lemma round_half_even_of_int: "round_half_even (of_int n) = n"
  by (rule round_half_even_near) simp

lemma round_double_of_int:
  assumes "\<bar>k\<bar> < 2 ^ 53"
  shows "round_double (of_int k) = Finite (of_int k)"
proof (cases "k = 0")
  case True
  then show ?thesis by (simp add: round_double_def)
next
  case False
  define r :: rat where "r = of_int k"
  have r0: "r \<noteq> 0" using False by (simp add: r_def)
  then have pos: "0 < \<bar>r\<bar>" by simp
  define e where "e = ilog2 \<bar>r\<bar>"
  note b = ilog2_bounds[OF pos, folded e_def]
  have ar: "\<bar>r\<bar> = of_int \<bar>k\<bar>" by (simp add: r_def)
  have "1 \<le> \<bar>k\<bar>" using False by simp
  then have "(1::rat) \<le> \<bar>r\<bar>" unfolding ar by (metis of_int_1_le_iff)
  then have "(2::rat) powi 0 < 2 powi (e + 1)" using b by simp
  then have e0: "0 \<le> e" using powi_less_imp_less[of 0 "e + 1"] by simp
  have "\<bar>r\<bar> < 2 ^ 53" unfolding ar using assms by (metis of_int_less_iff of_int_numeral of_int_power)
  then have "(2::rat) powi e < 2 powi 53" using b by simp
  then have e52: "e \<le> 52" using powi_less_imp_less[of e 53] by simp
  define n where "n = \<bar>k\<bar> * 2 ^ nat (52 - e)"
  have pw: "(2::rat) powi (e - 52) * 2 ^ nat (52 - e) = 1"
  proof -
    have "(2::rat) ^ nat (52 - e) = 2 powi (52 - e)" using e52 by (simp add: power_int_def)
    moreover have "(2::rat) powi ((e - 52) + (52 - e)) = 2 powi (e - 52) * 2 powi (52 - e)"
      by (rule power_int_add) simp
    ultimately show ?thesis by simp
  qed
  have ne: "(2::rat) powi (e - 52) \<noteq> 0" by simp
  have div: "\<bar>r\<bar> / 2 powi (e - 52) = of_int n"
  proof -
    have "of_int n * (2::rat) powi (e - 52) = \<bar>r\<bar> * (2 powi (e - 52) * 2 ^ nat (52 - e))"
      by (simp add: n_def ar mult_ac)
    then have "of_int n * (2::rat) powi (e - 52) = \<bar>r\<bar>" by (simp only: pw mult_1_right)
    then show ?thesis using ne by (simp add: field_simps)
  qed
  have q: "e - 52 = max (e - 52) (- 1074)" using e0 by simp
  have rh: "round_half_even (\<bar>r\<bar> / 2 powi (e - 52)) = n"
    unfolding div by (rule round_half_even_of_int)
  have val: "of_int n * (2::rat) powi (e - 52) = \<bar>r\<bar>"
    using div ne by (simp add: field_simps)
  have small: "of_int n * 2 powi (e - 52) < (2::rat) powi 1024"
  proof -
    have "\<bar>r\<bar> < 2 powi (e + 1)" using b by simp
    also have "\<dots> \<le> 2 powi 1024" using e52 by (intro power_int_increasing) simp_all
    finally show ?thesis unfolding val .
  qed
  have v: "r = (if r > 0 then of_int n * 2 powi (e - 52) else - (of_int n * 2 powi (e - 52)))"
    unfolding val using r0 by (simp add: abs_if)
  have "round_double r = Finite r"
    using r0 conjunct1[OF b] conjunct2[OF b] q rh small v by (rule round_double_eqI)
  then show ?thesis by (simp add: r_def)
qed

lemma round_double_numeral:
  "numeral n < (2 ^ 53 :: int) \<Longrightarrow> round_double (numeral n) = Finite (numeral n)"
  "numeral n < (2 ^ 53 :: int) \<Longrightarrow> round_double (- numeral n) = Finite (- numeral n)"
  "round_double 1 = Finite 1"
  "round_double 0 = Finite 0"
  using round_double_of_int[of "numeral n"] round_double_of_int[of "- numeral n"]
    round_double_of_int[of 1] round_double_of_int[of 0] by simp_all

lemma int_to_double_small: "\<bar>k\<bar> < 2 ^ 53 \<Longrightarrow> int_to_double k = Inr (of_int k)"
  by (simp add: int_to_double_def round_double_of_int)

text \<open>Overflow: a sum that leaves the range is an infinity, a quotient of integers that does raises.\<close>

lemma round_half_even_numeral: "round_half_even (numeral n) = numeral n"
  using round_half_even_of_int[of "numeral n"] by simp

lemma round_overflow: "round_double (2 ^ 1024) = PInf"
  by (rule round_double_overflowI[where e = 1024 and q = 972 and m = "4503599627370496",
        THEN trans])
     (simp_all add: round_half_even_numeral)

lemma overflow_examples:
  "true_divide (PyInt (2 ^ 1024)) 1 = Inl OverflowError"
  "fadd (Finite (2 ^ 1023)) (Finite (2 ^ 1023)) = PInf"
  "fadd PInf NInf = NaN"
  using round_overflow by (simp_all add: true_divide_def)

section \<open>The value of the score update\<close>

lemma py_index_in_range: "0 \<le> i \<Longrightarrow> i < int (length xs) \<Longrightarrow> py_index xs i = Inr (nat i)"
  by (simp add: py_index_def Let_def)

lemma py_index_less: "py_index xs i = Inr p \<Longrightarrow> p < length xs"
  by (auto simp: py_index_def Let_def split: if_splits)

lemma py_index_length: "length xs = length ys \<Longrightarrow> py_index xs i = py_index ys i"
  by (simp add: py_index_def)

lemma map_of_degrees: "map_of (degrees g) j = map_option fcard (map_of g j)"
  by (induction g) (auto simp: degrees_def)

lemma degrees_key: "j \<in> fst ` set g \<Longrightarrow> map_of (degrees g) j = Some (degree g j)"
  by (auto simp: map_of_degrees degree_def neighbors_def split: option.splits
      simp: map_of_eq_None_iff)

text \<open>
  The inner loop adds to \<open>y[i]\<close>, one after the other and in the order of the iteration,
  the quotients \<open>q j\<close> of the neighbours that pass the guard.
\<close>

lemma inner_loop_value:
  assumes "py_index y i = Inr p"
    and "\<forall>j \<in> set js. j \<in> fst ` set g \<and> 0 \<le> j \<and> j < int (length x)"
    and "\<forall>j \<in> set js. degree g j > 0 \<longrightarrow> true_divide (x ! nat j) (degree g j) = Inr (q j)"
  shows "inner_loop (degrees g) x i js y =
     Inr (y[p := foldl fadd (y ! p) (map q (filter (\<lambda>j. degree g j > 0) js))])"
  using assms
proof (induction js arbitrary: y)
  case Nil
  then show ?case by simp
next
  case (Cons j js)
  have p: "p < length y" using Cons.prems(1) by (rule py_index_less)
  have j: "map_of (degrees g) j = Some (degree g j)" "py_index x j = Inr (nat j)"
    using Cons.prems(2) by (simp_all add: degrees_key py_index_in_range)
  show ?case
  proof (cases "degree g j > 0")
    case True
    then have d: "true_divide (x ! nat j) (degree g j) = Inr (q j)" using Cons.prems(3) by simp
    let ?y1 = "y[p := fadd (y ! p) (q j)]"
    have step: "score_step (degrees g) x i j y = Inr ?y1"
      using j d True Cons.prems(1) by (simp add: score_step_def)
    have "py_index ?y1 i = Inr p"
      using Cons.prems(1) py_index_length[of ?y1 y i] by simp
    from Cons.IH[OF this] Cons.prems(2,3)
    have "inner_loop (degrees g) x i js ?y1 =
       Inr (?y1[p := foldl fadd (?y1 ! p) (map q (filter (\<lambda>j. degree g j > 0) js))])"
      by simp
    then show ?thesis using step p True by simp
  next
    case False
    then have step: "score_step (degrees g) x i j y = Inr y"
      using j by (simp add: score_step_def)
    from Cons.IH[OF Cons.prems(1)] Cons.prems(2,3)
    have "inner_loop (degrees g) x i js y =
       Inr (y[p := foldl fadd (y ! p) (map q (filter (\<lambda>j. degree g j > 0) js))])"
      by simp
    then show ?thesis using step False by simp
  qed
qed

lemma outer_loop_value:
  assumes "distinct ks"
    and "\<forall>i \<in> set ks. i \<in> fst ` set g \<and> 0 \<le> i \<and> i < int (length y)"
    and "\<forall>i \<in> set ks. \<forall>j \<in> set (iter i (neighbors g i)). j \<in> fst ` set g \<and> 0 \<le> j \<and> j < int (length x)"
    and "\<forall>i \<in> set ks. \<forall>j \<in> set (iter i (neighbors g i)).
           degree g j > 0 \<longrightarrow> true_divide (x ! nat j) (degree g j) = Inr (q j)"
  shows "\<exists>y'. outer_loop iter g (degrees g) x ks y = Inr y' \<and> length y' = length y \<and>
     (\<forall>p < length y. y' ! p =
        (if int p \<in> set ks
         then foldl fadd (y ! p)
                (map q (filter (\<lambda>j. degree g j > 0) (iter (int p) (neighbors g (int p)))))
         else y ! p))"
  using assms
proof (induction ks arbitrary: y)
  case Nil
  then show ?case by simp
next
  case (Cons i ks)
  let ?S = "\<lambda>i v. foldl fadd v (map q (filter (\<lambda>j. degree g j > 0) (iter i (neighbors g i))))"
  have i: "i \<in> fst ` set g" "0 \<le> i" "i < int (length y)" using Cons.prems(2) by simp_all
  have look: "lookup g i = Inr (neighbors g i)" using i(1) by (rule lookup_key)
  have idx: "py_index y i = Inr (nat i)" using i by (simp add: py_index_in_range)
  have inner: "inner_loop (degrees g) x i (iter i (neighbors g i)) y = Inr (y[nat i := ?S i (y ! nat i)])"
    using inner_loop_value[OF idx, of "iter i (neighbors g i)" g x q] Cons.prems(3,4) by simp
  let ?y1 = "y[nat i := ?S i (y ! nat i)]"
  have "\<exists>y'. outer_loop iter g (degrees g) x ks ?y1 = Inr y' \<and> length y' = length ?y1 \<and>
     (\<forall>p < length ?y1. y' ! p = (if int p \<in> set ks then ?S (int p) (?y1 ! p) else ?y1 ! p))"
    using Cons.prems by (intro Cons.IH) auto
  then obtain y' where y': "outer_loop iter g (degrees g) x ks ?y1 = Inr y'" "length y' = length y"
    and val: "\<forall>p < length y. y' ! p = (if int p \<in> set ks then ?S (int p) (?y1 ! p) else ?y1 ! p)"
    by auto
  have "outer_loop iter g (degrees g) x (i # ks) y = Inr y'"
    using look inner y' by simp
  moreover have "\<forall>p < length y. y' ! p = (if int p \<in> set (i # ks) then ?S (int p) (y ! p) else y ! p)"
  proof (intro allI impI)
    fix p assume p: "p < length y"
    show "y' ! p = (if int p \<in> set (i # ks) then ?S (int p) (y ! p) else y ! p)"
    proof (cases "int p = i")
      case True
      then have "nat i = p" "int p \<notin> set ks" using Cons.prems(1) by auto
      then show ?thesis using val p True by simp
    next
      case False
      then have "nat i \<noteq> p" using i(2) by auto
      then show ?thesis using val p False by simp
    qed
  qed
  ultimately show ?case using y'(2) by blast
qed

lemma compute_next_scores_value:
  assumes "vertices_ok g" "neighbors_in_graph g" "enumerates iter g" "length x = length g"
    and "\<forall>j \<in> set (map fst g). degree g j > 0 \<longrightarrow> true_divide (x ! nat j) (degree g j) = Inr (q j)"
  shows "compute_next_scores iter g (Some x) =
     Inr (map (\<lambda>i. foldl fadd (Finite 0)
                 (map q (filter (\<lambda>j. degree g j > 0) (iter (int i) (neighbors g (int i))))))
            [0..<length g])"
proof -
  let ?n = "length g"
  let ?S = "\<lambda>i. foldl fadd (Finite 0) (map q (filter (\<lambda>j. degree g j > 0) (iter i (neighbors g i))))"
  have dist: "distinct (map fst g)" and keys: "fst ` set g = {0..<int ?n}"
    using assms(1) by (simp_all add: vertices_ok_def)
  have enum: "set (iter i (neighbors g i)) = fset (neighbors g i)"
    if "i \<in> fst ` set g" for i
    using assms(3) entry_of_key[OF dist that] by (auto simp: enumerates_def)
  have cl: "j \<in> fst ` set g" if "i \<in> fst ` set g" "j |\<in>| neighbors g i" for i j
    using assms(2) entry_of_key[OF dist that(1)] that(2) by (auto simp: neighbors_in_graph_def)
  have "\<exists>y'. outer_loop iter g (degrees g) x (map fst g) (replicate ?n (Finite 0)) = Inr y' \<and>
      length y' = length (replicate ?n (Finite 0)) \<and>
     (\<forall>p < length (replicate ?n (Finite 0)). y' ! p =
        (if int p \<in> set (map fst g)
         then foldl fadd (replicate ?n (Finite 0) ! p)
                (map q (filter (\<lambda>j. degree g j > 0) (iter (int p) (neighbors g (int p)))))
         else replicate ?n (Finite 0) ! p))"
  proof (rule outer_loop_value[OF dist])
    show "\<forall>i\<in>set (map fst g). i \<in> fst ` set g \<and> 0 \<le> i \<and> i < int (length (replicate ?n (Finite 0)))"
      using keys by auto
    show "\<forall>i\<in>set (map fst g). \<forall>j\<in>set (iter i (neighbors g i)). j \<in> fst ` set g \<and> 0 \<le> j \<and> j < int (length x)"
    proof (intro ballI)
      fix i j assume i: "i \<in> set (map fst g)" and j: "j \<in> set (iter i (neighbors g i))"
      then have "j |\<in>| neighbors g i" using enum[of i] by auto
      then have "j \<in> fst ` set g" using cl i by auto
      then show "j \<in> fst ` set g \<and> 0 \<le> j \<and> j < int (length x)" using keys assms(4) by auto
    qed
    show "\<forall>i\<in>set (map fst g). \<forall>j\<in>set (iter i (neighbors g i)).
        degree g j > 0 \<longrightarrow> true_divide (x ! nat j) (degree g j) = Inr (q j)"
    proof (intro ballI)
      fix i j assume i: "i \<in> set (map fst g)" and j: "j \<in> set (iter i (neighbors g i))"
      then have "j |\<in>| neighbors g i" using enum[of i] by auto
      then have "j \<in> set (map fst g)" using cl i by auto
      then show "degree g j > 0 \<longrightarrow> true_divide (x ! nat j) (degree g j) = Inr (q j)"
        using assms(5) by blast
    qed
  qed
  then obtain y' where y': "outer_loop iter g (degrees g) x (map fst g) (replicate ?n (Finite 0)) = Inr y'"
    "length y' = ?n"
    and val: "\<forall>p < ?n. y' ! p = ?S (int p)"
    using keys by auto
  have "y' = map (\<lambda>i. ?S (int i)) [0..<?n]"
    by (rule nth_equalityI) (use y'(2) val in auto)
  then show ?thesis using y'(1) by (simp add: compute_next_scores_def Let_def)
qed

section \<open>Properties of the score update\<close>

lemma enumerates_sorted: "enumerates (\<lambda>i. sorted_list_of_fset) g"
  by (simp add: enumerates_def sorted_list_of_fset.rep_eq split: prod.splits)

lemma symmetric_degree_pos:
  assumes "symmetric g" "(i, s) \<in> set g" "j |\<in>| s"
  shows "degree g j > 0 \<and> map_of (degrees g) j = Some (degree g j)"
proof -
  have i: "i |\<in>| neighbors g j" using assms by (auto simp: symmetric_def)
  then have "neighbors g j \<noteq> {||}" by auto
  then have "degree g j > 0" by (simp add: degree_def zero_less_iff_neq_zero)
  moreover have "j \<in> fst ` set g" using i by (rule neighbors_nonempty_key)
  ultimately show ?thesis by (simp add: degrees_key)
qed

lemma true_divide_no_zero_division: "0 < d \<Longrightarrow> true_divide v d \<noteq> Inl ZeroDivisionError"
  by (auto simp: true_divide_def int_to_double_def split: number.splits double.splits sum.splits)

text \<open>Roundings that the examples below need.\<close>

lemma round_half: "round_double (1 / 2) = Finite (1 / 2)"
  by (rule round_double_nearI[where e = "- 1" and q = "- 53" and m = 4503599627370496]) simp_all

lemma round_1e16: "round_double 10000000000000000 = Finite 10000000000000000"
  by (rule round_double_nearI[where e = 53 and q = 1 and m = 5000000000000000]) simp_all

lemma round_1e16_plus_1: "round_double 10000000000000001 = Finite 10000000000000000"
  by (rule round_double_tieI[where e = 53 and q = 1 and m = 5000000000000000]) simp_all

lemma round_minus_1e16: "round_double (- 10000000000000000) = Finite (- 10000000000000000)"
  by (rule round_double_nearI[where e = 53 and q = 1 and m = 5000000000000000]) simp_all

lemma round_two_thirds: "round_double (2 / 3) = Finite (6004799503160661 / 9007199254740992)"
  by (rule round_double_nearI[where e = "- 1" and q = "- 53" and m = 6004799503160661]) simp_all

lemma round_two_thirds_again:
  "round_double (6004799503160661 / 9007199254740992) = Finite (6004799503160661 / 9007199254740992)"
  by (rule round_double_nearI[where e = "- 1" and q = "- 53" and m = 6004799503160661]) simp_all

lemmas float_eval =
  true_divide_def int_to_double_small round_double_numeral round_half round_1e16
  round_1e16_plus_1 round_minus_1e16 round_two_thirds round_two_thirds_again

lemma outer_loop_isolated:
  assumes "\<forall>(i, s) \<in> set g. s = {||}" "enumerates iter g" "set ks \<subseteq> fst ` set g"
  shows "outer_loop iter g degs x ks y = Inr y"
  using assms(3)
proof (induction ks)
  case Nil
  then show ?case by simp
next
  case (Cons i ks)
  then have "i \<in> fst ` set g" by simp
  then have "map_of g i \<noteq> None" by (simp add: map_of_eq_None_iff)
  then obtain s where s: "map_of g i = Some s" by blast
  then have "(i, s) \<in> set g" by (rule map_of_SomeD)
  with assms(1,2) have "s = {||}" "set (iter i s) = fset s" by (auto simp: enumerates_def)
  then have "iter i s = []" by simp
  with s Cons show ?case by (simp add: lookup_def)
qed

text \<open>
  Claim C7. When every neighbour set is empty, \<open>compute_next_scores\<close> returns the all-zero
  vector of length \<open>n\<close>, whatever the prior vector (present or not, of any length, with
  entries of any kind) is: no prior is read and no arithmetic is done.
\<close>

theorem isolated_scores_zero:
  assumes "\<forall>(i, s) \<in> set g. s = {||}" and "enumerates iter g"
  shows "compute_next_scores iter g current_scores = Inr (replicate (length g) (Finite 0))"
  using outer_loop_isolated[OF assms, of "map fst g"]
  by (simp add: compute_next_scores_def Let_def)

theorem isolated_scores_zero_witness:
  "compute_next_scores (\<lambda>i. sorted_list_of_fset) [(0, {||}), (1, {||}), (2, {||})]
     (Some [PyFloat (Finite 5), PyFloat (Finite 7), PyInt 9]) =
     Inr [Finite 0, Finite 0, Finite 0]"
  using isolated_scores_zero[of "[(0, {||}), (1, {||}), (2, {||})]" "\<lambda>i. sorted_list_of_fset"
      "Some [PyFloat (Finite 5), PyFloat (Finite 7), PyInt 9]"]
    enumerates_sorted[of "[(0, {||}), (1, {||}), (2, {||})]"]
  by (simp add: numeral_3_eq_3)

lemma enumeration_length:
  assumes "set js = fset s" "distinct js"
  shows "length js = fcard s"
  using assms distinct_card[of js] by (simp add: fcard.rep_eq)

lemma foldl_fadd_const:
  assumes "\<forall>j \<in> set js. q j = c"
  shows "foldl fadd v (map q js) = foldl fadd v (replicate (length js) c)"
proof -
  have "map q js = replicate (length js) c"
    using assms by (simp add: map_replicate_const[symmetric] cong: map_cong)
  then show ?thesis by simp
qed

text \<open>
  Claim C8. The all-ones vector is a fixed point on the single edge \<open>{0, 1}\<close> and on the
  complete graph on three vertices, in whatever order the sets are iterated: the
  quotients \<open>1.0 / 1\<close> and \<open>1.0 / 2\<close> and the sums \<open>0.0 + 1.0\<close>, \<open>0.0 + 0.5\<close> and
  \<open>0.5 + 0.5\<close> are exact in doubles.
\<close>

theorem all_ones_fixed_point:
  assumes "enumerates iter [(0, {|1|}), (1, {|0|})]"
    and "enumerates iter' [(0, {|1, 2|}), (1, {|0, 2|}), (2, {|0, 1|})]"
  shows "compute_next_scores iter [(0, {|1|}), (1, {|0|})]
           (Some [PyFloat (Finite 1), PyFloat (Finite 1)]) = Inr [Finite 1, Finite 1] \<and>
         compute_next_scores iter' [(0, {|1, 2|}), (1, {|0, 2|}), (2, {|0, 1|})]
           (Some [PyFloat (Finite 1), PyFloat (Finite 1), PyFloat (Finite 1)]) =
           Inr [Finite 1, Finite 1, Finite 1]"
proof -
  let ?g = "[(0, {|1|}), (1, {|0|})] :: graph"
  let ?k = "[(0, {|1, 2|}), (1, {|0, 2|}), (2, {|0, 1|})] :: graph"
  let ?x2 = "[PyFloat (Finite 1), PyFloat (Finite 1)]"
  let ?x3 = "[PyFloat (Finite 1), PyFloat (Finite 1), PyFloat (Finite 1)]"
  have "{0..<2} = {0, 1::int}" by auto
  then have vg: "vertices_ok ?g" by (simp add: vertices_ok_def)
  have cg: "neighbors_in_graph ?g" by (simp add: neighbors_in_graph_def)
  have "{0..<3} = {0, 1, 2::int}" by auto
  then have vk: "vertices_ok ?k" by (simp add: vertices_ok_def)
  have ck: "neighbors_in_graph ?k" by (simp add: neighbors_in_graph_def)
  have u2: "[0..<2] = [0, 1]" and u3: "[0..<3] = [0, 1, 2]" by (simp_all add: upt_rec)
  have dg: "degree ?g j = (if j = 0 \<or> j = 1 then 1 else 0)" for j
    by (simp add: degree_def neighbors_def fcard_finsert_if fcard_fempty)
  have dk: "degree ?k j = (if j = 0 \<or> j = 1 \<or> j = 2 then 2 else 0)" for j
    by (simp add: degree_def neighbors_def fcard_finsert_if fcard_fempty)
  have qg: "\<forall>j \<in> set (map fst ?g). degree ?g j > 0 \<longrightarrow>
      true_divide (?x2 ! nat j) (degree ?g j) = Inr (Finite 1)"
    by (simp add: dg float_eval)
  have qk: "\<forall>j \<in> set (map fst ?k). degree ?k j > 0 \<longrightarrow>
      true_divide (?x3 ! nat j) (degree ?k j) = Inr (Finite (1 / 2))"
    by (simp add: dk float_eval)
  have lg: "length (iter i s) = fcard s" "set (iter i s) = fset s" if "(i, s) \<in> set ?g" for i s
    using assms(1) that enumeration_length[of "iter i s" s] by (auto simp: enumerates_def)
  have lk: "length (iter' i s) = fcard s" "set (iter' i s) = fset s" if "(i, s) \<in> set ?k" for i s
    using assms(2) that enumeration_length[of "iter' i s" s] by (auto simp: enumerates_def)
  have fg: "foldl fadd (Finite 0) (map (\<lambda>j. Finite 1) (filter (\<lambda>j. degree ?g j > 0) (iter i s))) = Finite 1"
    if "(i, s) \<in> set ?g" for i s
  proof -
    have "filter (\<lambda>j. degree ?g j > 0) (iter i s) = iter i s"
      using lg(2)[OF that] that by (intro filter_True) (auto simp: dg)
    moreover have "length (iter i s) = 1" using lg(1)[OF that] that by (auto simp: fcard_finsert_if fcard_fempty)
    ultimately show ?thesis by (simp add: map_replicate_const float_eval)
  qed
  have fk: "foldl fadd (Finite 0) (map (\<lambda>j. Finite (1 / 2)) (filter (\<lambda>j. degree ?k j > 0) (iter' i s))) = Finite 1"
    if "(i, s) \<in> set ?k" for i s
  proof -
    have "filter (\<lambda>j. degree ?k j > 0) (iter' i s) = iter' i s"
      using lk(2)[OF that] that by (intro filter_True) (auto simp: dk)
    moreover have "length (iter' i s) = 2" using lk(1)[OF that] that by (auto simp: fcard_finsert_if fcard_fempty)
    ultimately show ?thesis by (simp add: map_replicate_const numeral_2_eq_2 float_eval)
  qed
  have "compute_next_scores iter ?g (Some ?x2) = Inr [Finite 1, Finite 1]"
    using compute_next_scores_value[OF vg cg assms(1) _ qg] u2 fg[of 0 "{|1|}"] fg[of 1 "{|0|}"]
    by (simp add: neighbors_def)
  moreover have "compute_next_scores iter' ?k (Some ?x3) = Inr [Finite 1, Finite 1, Finite 1]"
    using compute_next_scores_value[OF vk ck assms(2) _ qk] u3
      fk[of 0 "{|1, 2|}"] fk[of 1 "{|0, 2|}"] fk[of 2 "{|0, 1|}"]
    by (simp add: neighbors_def)
  ultimately show ?thesis by simp
qed

theorem all_ones_fixed_point_witness:
  "compute_next_scores (\<lambda>i. sorted_list_of_fset) [(0, {|1|}), (1, {|0|})]
     (Some [PyFloat (Finite 1), PyFloat (Finite 1)]) = Inr [Finite 1, Finite 1] \<and>
   compute_next_scores (\<lambda>i. sorted_list_of_fset) [(0, {|1, 2|}), (1, {|0, 2|}), (2, {|0, 1|})]
     (Some [PyFloat (Finite 1), PyFloat (Finite 1), PyFloat (Finite 1)]) =
     Inr [Finite 1, Finite 1, Finite 1]"
  using all_ones_fixed_point[OF enumerates_sorted enumerates_sorted] .

text \<open>
  Claim C2, as amended. On a graph whose vertices are \<open>0, ..., n - 1\<close> and whose neighbours
  are vertices, and for a prior vector of length \<open>n\<close> none of whose quotients
  \<^verbatim>\<open>x[j] / degrees[j]\<close> raises (\<open>q j\<close> is the double the division returns), entry \<open>i\<close> of
  the result is the floating-point sum that starts at \<open>0.0\<close> and adds the quotients \<open>q j\<close>
  of the neighbours \<open>j\<close> of \<open>i\<close> with \<open>degree j > 0\<close> one after the other, in the order in
  which the neighbour set is iterated, each quotient and each addition rounded to a
  double. When no prior vector is passed, the result is that for the all-ones vector of
  length \<open>n\<close>. The entry is not the exact sum of the claim: rounding makes it depend on
  the order and lose terms, as the counterexample below shows.
\<close>

theorem compute_next_scores_formula:
  assumes "vertices_ok g" and "neighbors_in_graph g" and "enumerates iter g"
    and "length x = length g"
    and "\<forall>j \<in> set (map fst g). degree g j > 0 \<longrightarrow>
           true_divide (x ! nat j) (degree g j) = Inr (q j)"
  shows "compute_next_scores iter g (Some x) =
           Inr (map (\<lambda>i. foldl fadd (Finite 0)
                  (map q (filter (\<lambda>j. degree g j > 0) (iter (int i) (neighbors g (int i))))))
                [0..<length g]) \<and>
         compute_next_scores iter g None =
           compute_next_scores iter g (Some (replicate (length g) (PyFloat (Finite 1))))"
  using compute_next_scores_value[OF assms] by (simp add: compute_next_scores_def Let_def)

lemma sorted_list_examples:
  "sorted_list_of_fset {|1::int|} = [1]" "sorted_list_of_fset {|0::int|} = [0]"
  "sorted_list_of_fset {|0, 2::int|} = [0, 2]" "sorted_list_of_fset {|1, 2::int|} = [1, 2]"
  "sorted_list_of_fset {|2, 1::int|} = [1, 2]"
  "sorted_list_of_fset {|1, 2, 3::int|} = [1, 2, 3]" "sorted_list_of_fset {|0, 2, 3::int|} = [0, 2, 3]"
  "sorted_list_of_fset {||} = ([] :: int list)"
  by (simp_all add: sorted_list_of_fset.rep_eq)

theorem compute_next_scores_formula_witness:
  "vertices_ok [(0, {|1|}), (1, {|0, 2|}), (2, {|1|})] \<and>
   neighbors_in_graph [(0, {|1|}), (1, {|0, 2|}), (2, {|1|})] \<and>
   compute_next_scores (\<lambda>i. sorted_list_of_fset) [(0, {|1|}), (1, {|0, 2|}), (2, {|1|})]
     (Some [PyFloat (Finite 2), PyInt 4, PyFloat (Finite 6)]) =
     Inr [Finite 2, Finite 8, Finite 2]"
proof -
  let ?g = "[(0, {|1|}), (1, {|0, 2|}), (2, {|1|})] :: graph"
  let ?x = "[PyFloat (Finite 2), PyInt 4, PyFloat (Finite 6)]"
  let ?q = "\<lambda>j::int. if j = 0 then Finite 2 else if j = 1 then Finite 2 else Finite 6"
  have "{0..<3} = {0, 1, 2::int}" by auto
  then have v: "vertices_ok ?g" by (simp add: vertices_ok_def)
  have c: "neighbors_in_graph ?g" by (simp add: neighbors_in_graph_def)
  have l: "length ?x = length ?g" by simp
  have d: "degree ?g j = (if j = 0 \<or> j = 2 then 1 else if j = 1 then 2 else 0)" for j
    by (simp add: degree_def neighbors_def fcard_finsert_if fcard_fempty)
  have q: "\<forall>j \<in> set (map fst ?g). degree ?g j > 0 \<longrightarrow>
      true_divide (?x ! nat j) (degree ?g j) = Inr (?q j)"
    by (simp add: d float_eval)
  have u3: "[0..<3] = [0, 1, 2]" by (simp add: upt_rec)
  have "compute_next_scores (\<lambda>i. sorted_list_of_fset) ?g (Some ?x) = Inr [Finite 2, Finite 8, Finite 2]"
    using compute_next_scores_formula[OF v c enumerates_sorted l q, THEN conjunct1] u3
    by (simp add: neighbors_def d sorted_list_examples float_eval)
  with v c show ?thesis by simp
qed

text \<open>
  On the star with centre \<open>0\<close> and leaves \<open>1, 2, 3\<close> and the priors
  \<open>0.0, 1e16, 1.0, -1e16\<close>, the exact sum for vertex \<open>0\<close> is \<open>1\<close>, and the program returns
  \<open>0.0\<close> there: \<open>1e16 + 1.0\<close> rounds to \<open>1e16\<close>.
\<close>

theorem exact_sum_counterexample:
  "compute_next_scores (\<lambda>i. sorted_list_of_fset)
     [(0, {|1, 2, 3|}), (1, {|0|}), (2, {|0|}), (3, {|0|})]
     (Some [PyFloat (Finite 0), PyFloat (Finite 10000000000000000), PyFloat (Finite 1),
            PyFloat (Finite (- 10000000000000000))]) =
     Inr [Finite 0, Finite 0, Finite 0, Finite 0] \<and>
   (\<Sum>j \<in> {j \<in> fset (neighbors [(0, {|1, 2, 3|}), (1, {|0|}), (2, {|0|}), (3, {|0|})] 0).
              degree [(0, {|1, 2, 3|}), (1, {|0|}), (2, {|0|}), (3, {|0|})] j > 0}.
      the (num_value ([PyFloat (Finite 0), PyFloat (Finite 10000000000000000),
                       PyFloat (Finite 1), PyFloat (Finite (- 10000000000000000))] ! nat j)) /
      of_nat (degree [(0, {|1, 2, 3|}), (1, {|0|}), (2, {|0|}), (3, {|0|})] j)) = 1"
proof -
  let ?g = "[(0, {|1, 2, 3|}), (1, {|0|}), (2, {|0|}), (3, {|0|})] :: graph"
  let ?x = "[PyFloat (Finite 0), PyFloat (Finite 10000000000000000), PyFloat (Finite 1),
            PyFloat (Finite (- 10000000000000000))]"
  let ?q = "\<lambda>j::int. if j = 0 then Finite 0 else if j = 1 then Finite 10000000000000000
      else if j = 2 then Finite 1 else Finite (- 10000000000000000)"
  have "{0..<4} = {0, 1, 2, 3::int}" by auto
  then have v: "vertices_ok ?g" by (simp add: vertices_ok_def)
  have c: "neighbors_in_graph ?g" by (simp add: neighbors_in_graph_def)
  have l: "length ?x = length ?g" by simp
  have d: "degree ?g j = (if j = 0 then 3 else if j = 1 \<or> j = 2 \<or> j = 3 then 1 else 0)" for j
    by (simp add: degree_def neighbors_def fcard_finsert_if fcard_fempty)
  have q: "\<forall>j \<in> set (map fst ?g). degree ?g j > 0 \<longrightarrow>
      true_divide (?x ! nat j) (degree ?g j) = Inr (?q j)"
    by (simp add: d float_eval)
  have u4: "[0..<4] = [0, 1, 2, 3]" by (simp add: upt_rec)
  have "compute_next_scores (\<lambda>i. sorted_list_of_fset) ?g (Some ?x) =
      Inr [Finite 0, Finite 0, Finite 0, Finite 0]"
    using compute_next_scores_value[OF v c enumerates_sorted l q] u4
    by (simp add: neighbors_def d sorted_list_examples float_eval)
  moreover have "{j \<in> fset (neighbors ?g 0). degree ?g j > 0} = {1, 2, 3}"
    by (auto simp: neighbors_def d)
  then have "(\<Sum>j \<in> {j \<in> fset (neighbors ?g 0). degree ?g j > 0}.
      the (num_value (?x ! nat j)) / of_nat (degree ?g j)) = 1"
    by (simp add: d)
  ultimately show ?thesis by (rule conjI)
qed

text \<open>
  Claim C6. On a graph with the symmetry invariant, every neighbour \<open>j\<close> met by the
  loops has an entry in the degree table and that entry is positive, so the guard of
  line 48 always holds; the division of line 49 never raises \<^verbatim>\<open>ZeroDivisionError\<close>,
  whatever number is divided; and the result is the sum over all neighbours, none left
  out by the guard.
\<close>

theorem degree_guard_always_true:
  assumes "vertices_ok g" and "symmetric g" and "enumerates iter g" and "length x = length g"
  shows "(\<forall>(i, s) \<in> set g. \<forall>j \<in> fset s.
            map_of (degrees g) j = Some (degree g j) \<and> degree g j > 0) \<and>
         (\<forall>(i, s) \<in> set g. \<forall>j \<in> fset s. \<forall>v.
            true_divide v (degree g j) \<noteq> Inl ZeroDivisionError) \<and>
         ((\<forall>j \<in> set (map fst g). degree g j > 0 \<longrightarrow>
              true_divide (x ! nat j) (degree g j) = Inr (q j)) \<longrightarrow>
          compute_next_scores iter g (Some x) =
            Inr (map (\<lambda>i. foldl fadd (Finite 0) (map q (iter (int i) (neighbors g (int i)))))
                   [0..<length g]))"
proof -
  have guard: "\<forall>(i, s) \<in> set g. \<forall>j \<in> fset s.
      map_of (degrees g) j = Some (degree g j) \<and> degree g j > 0"
    using symmetric_degree_pos[OF assms(2)] by blast
  then have nz: "\<forall>(i, s) \<in> set g. \<forall>j \<in> fset s. \<forall>v.
      true_divide v (degree g j) \<noteq> Inl ZeroDivisionError"
    using true_divide_no_zero_division by blast
  have dist: "distinct (map fst g)" and keys: "fst ` set g = {0..<int (length g)}"
    using assms(1) by (simp_all add: vertices_ok_def)
  have all: "filter (\<lambda>j. degree g j > 0) (iter (int i) (neighbors g (int i))) =
      iter (int i) (neighbors g (int i))" if "i < length g" for i
  proof (rule filter_True, rule ballI)
    fix j assume j: "j \<in> set (iter (int i) (neighbors g (int i)))"
    have e: "(int i, neighbors g (int i)) \<in> set g"
      using that keys by (intro entry_of_key[OF dist]) auto
    then have "set (iter (int i) (neighbors g (int i))) = fset (neighbors g (int i))"
      using assms(3) by (auto simp: enumerates_def)
    with j e guard show "degree g j > 0" by blast
  qed
  have "compute_next_scores iter g (Some x) =
      Inr (map (\<lambda>i. foldl fadd (Finite 0) (map q (iter (int i) (neighbors g (int i)))))
             [0..<length g])"
    if q: "\<forall>j \<in> set (map fst g). degree g j > 0 \<longrightarrow>
        true_divide (x ! nat j) (degree g j) = Inr (q j)"
  proof -
    have "map (\<lambda>i. foldl fadd (Finite 0)
             (map q (filter (\<lambda>j. degree g j > 0) (iter (int i) (neighbors g (int i))))))
            [0..<length g] =
          map (\<lambda>i. foldl fadd (Finite 0) (map q (iter (int i) (neighbors g (int i)))))
            [0..<length g]"
      by (rule map_cong[OF refl]) (simp add: all)
    then show ?thesis
      using compute_next_scores_value[OF assms(1) symmetric_neighbors_in_graph[OF assms(2)]
          assms(3,4) q]
      by simp
  qed
  with guard nz show ?thesis by blast
qed

theorem degree_guard_always_true_witness:
  "vertices_ok [(0, {|1, 2|}), (1, {|0|}), (2, {|0|})] \<and> symmetric [(0, {|1, 2|}), (1, {|0|}), (2, {|0|})] \<and>
   compute_next_scores (\<lambda>i. sorted_list_of_fset) [(0, {|1, 2|}), (1, {|0|}), (2, {|0|})]
     (Some [PyFloat (Finite 4), PyFloat (Finite 1), PyFloat (Finite 2)]) =
     Inr [Finite 3, Finite 2, Finite 2]"
proof -
  let ?g = "[(0, {|1, 2|}), (1, {|0|}), (2, {|0|})] :: graph"
  let ?x = "[PyFloat (Finite 4), PyFloat (Finite 1), PyFloat (Finite 2)]"
  let ?q = "\<lambda>j::int. if j = 0 then Finite 2 else if j = 1 then Finite 1 else Finite 2"
  have "{0..<3} = {0, 1, 2::int}" by auto
  then have v: "vertices_ok ?g" by (simp add: vertices_ok_def)
  have s: "symmetric ?g" by (simp add: symmetric_def neighbors_def)
  have l: "length ?x = length ?g" by simp
  have d: "degree ?g j = (if j = 0 then 2 else if j = 1 \<or> j = 2 then 1 else 0)" for j
    by (simp add: degree_def neighbors_def fcard_finsert_if fcard_fempty)
  have q: "\<forall>j \<in> set (map fst ?g). degree ?g j > 0 \<longrightarrow>
      true_divide (?x ! nat j) (degree ?g j) = Inr (?q j)"
    by (simp add: d float_eval)
  have u3: "[0..<3] = [0, 1, 2]" by (simp add: upt_rec)
  have "compute_next_scores (\<lambda>i. sorted_list_of_fset) ?g (Some ?x) = Inr [Finite 3, Finite 2, Finite 2]"
    using degree_guard_always_true[OF v s enumerates_sorted l, of ?q, THEN conjunct2, THEN conjunct2] q u3
    by (simp add: neighbors_def sorted_list_examples float_eval)
  with v s show ?thesis by simp
qed

section \<open>Conservation of the scores\<close>

lemma compute_next_scores_symmetric:
  assumes "vertices_ok g" and "symmetric g" and "enumerates iter g" and "length x = length g"
    and "\<forall>j \<in> set (map fst g). degree g j > 0 \<longrightarrow>
           true_divide (x ! nat j) (degree g j) = Inr (q j)"
  shows "compute_next_scores iter g (Some x) =
     Inr (map (\<lambda>i. foldl fadd (Finite 0) (map q (iter (int i) (neighbors g (int i)))))
            [0..<length g])"
proof -
  have dist: "distinct (map fst g)" and keys: "fst ` set g = {0..<int (length g)}"
    using assms(1) by (simp_all add: vertices_ok_def)
  have all: "filter (\<lambda>j. degree g j > 0) (iter (int i) (neighbors g (int i))) =
      iter (int i) (neighbors g (int i))" if "i < length g" for i
  proof (rule filter_True, rule ballI)
    fix j assume j: "j \<in> set (iter (int i) (neighbors g (int i)))"
    have e: "(int i, neighbors g (int i)) \<in> set g"
      using that keys by (intro entry_of_key[OF dist]) auto
    then have "set (iter (int i) (neighbors g (int i))) = fset (neighbors g (int i))"
      using assms(3) by (auto simp: enumerates_def)
    with j e symmetric_degree_pos[OF assms(2)] show "degree g j > 0" by blast
  qed
  have "map (\<lambda>i. foldl fadd (Finite 0)
           (map q (filter (\<lambda>j. degree g j > 0) (iter (int i) (neighbors g (int i))))))
          [0..<length g] =
        map (\<lambda>i. foldl fadd (Finite 0) (map q (iter (int i) (neighbors g (int i)))))
          [0..<length g]"
    by (rule map_cong[OF refl]) (simp add: all)
  then show ?thesis
    using compute_next_scores_value[OF assms(1) symmetric_neighbors_in_graph[OF assms(2)] assms(3,4,5)]
    by simp
qed

lemma sum_rows_columns:
  fixes c :: "int \<Rightarrow> rat"
  assumes "finite V" and "\<And>i. i \<in> V \<Longrightarrow> finite (N i)" and "\<And>i. i \<in> V \<Longrightarrow> N i \<subseteq> V"
    and sym: "\<And>i j. i \<in> V \<Longrightarrow> j \<in> V \<Longrightarrow> j \<in> N i \<longleftrightarrow> i \<in> N j"
  shows "(\<Sum>i\<in>V. \<Sum>j\<in>N i. c j) = (\<Sum>j\<in>V. of_nat (card (N j)) * c j)"
proof -
  have "(\<Sum>i\<in>V. \<Sum>j\<in>N i. c j) = (\<Sum>i\<in>V. \<Sum>j\<in>V. if j \<in> N i then c j else 0)"
  proof (rule sum.cong[OF refl])
    fix i assume i: "i \<in> V"
    have "(\<Sum>j\<in>V. if j \<in> N i then c j else 0) = (\<Sum>j\<in>V \<inter> N i. c j)"
      using assms(1) by (rule sum.inter_restrict[symmetric])
    moreover have "V \<inter> N i = N i" using assms(3)[OF i] by auto
    ultimately show "(\<Sum>j\<in>N i. c j) = (\<Sum>j\<in>V. if j \<in> N i then c j else 0)" by simp
  qed
  also have "\<dots> = (\<Sum>j\<in>V. \<Sum>i\<in>V. if j \<in> N i then c j else 0)"
    by (rule sum.swap)
  also have "\<dots> = (\<Sum>j\<in>V. \<Sum>i\<in>V. if i \<in> N j then c j else 0)"
    by (intro sum.cong refl) (simp add: sym)
  also have "\<dots> = (\<Sum>j\<in>V. of_nat (card (N j)) * c j)"
  proof (rule sum.cong[OF refl])
    fix j assume j: "j \<in> V"
    have "(\<Sum>i\<in>V. if i \<in> N j then c j else 0) = (\<Sum>i\<in>V \<inter> N j. c j)"
      using assms(1) by (rule sum.inter_restrict[symmetric])
    moreover have "V \<inter> N j = N j" using assms(3)[OF j] by auto
    ultimately show "(\<Sum>i\<in>V. if i \<in> N j then c j else 0) = of_nat (card (N j)) * c j" by simp
  qed
  finally show ?thesis .
qed

text \<open>
  Claim C9, as amended. On a graph with the invariants and a prior vector of matching
  length with finite values \<open>v j\<close>, if every quotient \<open>v j / degree j\<close> of a vertex of
  positive degree is a double (the division returns it unrounded) and the floating-point
  sum of every entry is its exact sum, then the entries of the result add up, as
  rationals, to the sum of \<open>v j\<close> over the vertices \<open>j\<close> with \<open>degree j \<ge> 1\<close>. Without the
  two conditions the sums differ, as the counterexample below shows.
\<close>

theorem score_conservation:
  assumes "vertices_ok g" and "symmetric g" and "enumerates iter g" and "length x = length g"
    and "\<forall>j \<in> set (map fst g). degree g j > 0 \<longrightarrow>
           num_value (x ! nat j) = Some (v j) \<and>
           true_divide (x ! nat j) (degree g j) = Inr (Finite (v j / of_nat (degree g j)))"
    and "\<forall>i \<in> set (map fst g).
           foldl fadd (Finite 0)
             (map (\<lambda>j. Finite (v j / of_nat (degree g j))) (iter i (neighbors g i))) =
           Finite (\<Sum>j\<leftarrow>iter i (neighbors g i). v j / of_nat (degree g j))"
  shows "\<exists>y. compute_next_scores iter g (Some x) = Inr (map Finite y) \<and>
           sum_list y = (\<Sum>j \<in> {j \<in> set (map fst g). degree g j \<ge> 1}. v j)"
proof -
  let ?n = "length g"
  let ?V = "{0..<int ?n}"
  let ?N = "\<lambda>i. fset (neighbors g i)"
  let ?c = "\<lambda>j. v j / of_nat (degree g j)"
  let ?y = "map (\<lambda>i. \<Sum>j\<in>?N (int i). ?c j) [0..<?n]"
  have dist: "distinct (map fst g)" and keys: "fst ` set g = ?V"
    using assms(1) by (simp_all add: vertices_ok_def)
  have cl: "neighbors_in_graph g" using assms(2) by (rule symmetric_neighbors_in_graph)
  have enum: "set (iter i (neighbors g i)) = ?N i" "distinct (iter i (neighbors g i))"
    if "i \<in> ?V" for i
    using assms(3) entry_of_key[OF dist, of i] that keys by (auto simp: enumerates_def)
  have q: "\<forall>j \<in> set (map fst g). degree g j > 0 \<longrightarrow>
      true_divide (x ! nat j) (degree g j) = Inr (Finite (?c j))"
    using assms(5) by blast
  have entry: "foldl fadd (Finite 0) (map (\<lambda>j. Finite (?c j)) (iter (int i) (neighbors g (int i)))) =
      Finite (\<Sum>j\<in>?N (int i). ?c j)" if "i < ?n" for i
  proof -
    have k: "int i \<in> ?V" using that by simp
    then have "int i \<in> set (map fst g)" using keys by simp
    with assms(6) have "foldl fadd (Finite 0)
        (map (\<lambda>j. Finite (?c j)) (iter (int i) (neighbors g (int i)))) =
        Finite (\<Sum>j\<leftarrow>iter (int i) (neighbors g (int i)). ?c j)" by blast
    moreover have "(\<Sum>j\<leftarrow>iter (int i) (neighbors g (int i)). ?c j) = (\<Sum>j\<in>?N (int i). ?c j)"
      using sum_list_distinct_conv_sum_set[OF enum(2)[OF k], of ?c] enum(1)[OF k] by simp
    ultimately show ?thesis by simp
  qed
  have "map (\<lambda>i. foldl fadd (Finite 0)
          (map (\<lambda>j. Finite (?c j)) (iter (int i) (neighbors g (int i))))) [0..<?n] = map Finite ?y"
    unfolding map_map comp_def by (rule map_cong[OF refl]) (simp add: entry)
  then have y: "compute_next_scores iter g (Some x) = Inr (map Finite ?y)"
    using compute_next_scores_symmetric[OF assms(1-4) q] by simp
  have sub: "?N i \<subseteq> ?V" if "i \<in> ?V" for i
  proof
    fix j assume "j \<in> ?N i"
    moreover have "(i, neighbors g i) \<in> set g" using that keys entry_of_key[OF dist] by blast
    ultimately have "j \<in> set (map fst g)" using cl by (auto simp: neighbors_in_graph_def)
    then show "j \<in> ?V" using keys by simp
  qed
  have "sum_list ?y = (\<Sum>p\<in>{0..<?n}. \<Sum>j\<in>?N (int p). ?c j)"
    by (simp add: sum_list_sum_nth atLeast0LessThan)
  also have "\<dots> = (\<Sum>i\<in>int ` {0..<?n}. \<Sum>j\<in>?N i. ?c j)"
    by (simp add: sum.reindex)
  also have "int ` {0..<?n} = ?V"
    by (simp add: image_int_atLeastLessThan)
  also have "(\<Sum>i\<in>?V. \<Sum>j\<in>?N i. ?c j) = (\<Sum>j\<in>?V. of_nat (card (?N j)) * ?c j)"
  proof (rule sum_rows_columns)
    show "finite ?V" by simp
    show "finite (?N i)" for i by simp
    show "?N i \<subseteq> ?V" if "i \<in> ?V" for i using sub[OF that] .
    show "j \<in> ?N i \<longleftrightarrow> i \<in> ?N j" for i j
      using symmetric_iff[OF dist assms(2)] .
  qed
  also have "\<dots> = (\<Sum>j\<in>?V. if degree g j \<ge> 1 then v j else 0)"
  proof (rule sum.cong[OF refl])
    fix j
    have "card (?N j) = degree g j" by (simp add: degree_def fcard.rep_eq)
    then show "of_nat (card (?N j)) * ?c j = (if degree g j \<ge> 1 then v j else 0)"
      by (cases "degree g j = 0") simp_all
  qed
  also have "\<dots> = (\<Sum>j \<in> {j \<in> ?V. degree g j \<ge> 1}. v j)"
    by (rule sum.inter_filter[symmetric]) simp
  finally have "sum_list ?y = (\<Sum>j \<in> {j \<in> ?V. degree g j \<ge> 1}. v j)" .
  moreover have "set (map fst g) = ?V" using keys by simp
  ultimately have "sum_list ?y = (\<Sum>j \<in> {j \<in> set (map fst g). degree g j \<ge> 1}. v j)"
    by (simp only:)
  with y show ?thesis by blast
qed

theorem score_conservation_witness:
  "vertices_ok [(0, {|1|}), (1, {|0, 2|}), (2, {|1|})] \<and>
   symmetric [(0, {|1|}), (1, {|0, 2|}), (2, {|1|})] \<and>
   (\<exists>y. compute_next_scores (\<lambda>i. sorted_list_of_fset) [(0, {|1|}), (1, {|0, 2|}), (2, {|1|})]
           (Some [PyFloat (Finite 1), PyInt 2, PyFloat (Finite 3)]) = Inr (map Finite y) \<and>
        sum_list y = 1 + 2 + 3)"
proof -
  let ?g = "[(0, {|1|}), (1, {|0, 2|}), (2, {|1|})] :: graph"
  let ?x = "[PyFloat (Finite 1), PyInt 2, PyFloat (Finite 3)]"
  let ?v = "\<lambda>j::int. if j = 0 then 1 else if j = 1 then 2 else (3::rat)"
  have "{0..<3} = {0, 1, 2::int}" by auto
  then have v: "vertices_ok ?g" by (simp add: vertices_ok_def)
  have s: "symmetric ?g" by (simp add: symmetric_def neighbors_def)
  have l: "length ?x = length ?g" by simp
  have d: "degree ?g j = (if j = 0 \<or> j = 2 then 1 else if j = 1 then 2 else 0)" for j
    by (simp add: degree_def neighbors_def fcard_finsert_if fcard_fempty)
  have q: "\<forall>j \<in> set (map fst ?g). degree ?g j > 0 \<longrightarrow>
      num_value (?x ! nat j) = Some (?v j) \<and>
      true_divide (?x ! nat j) (degree ?g j) = Inr (Finite (?v j / of_nat (degree ?g j)))"
    by (simp add: d float_eval)
  have e: "\<forall>i \<in> set (map fst ?g).
      foldl fadd (Finite 0)
        (map (\<lambda>j. Finite (?v j / of_nat (degree ?g j))) (sorted_list_of_fset (neighbors ?g i))) =
      Finite (\<Sum>j\<leftarrow>sorted_list_of_fset (neighbors ?g i). ?v j / of_nat (degree ?g j))"
    by (simp add: d neighbors_def sorted_list_examples float_eval)
  have "{j \<in> set (map fst ?g). degree ?g j \<ge> 1} = {0, 1, 2}"
    by (auto simp: d)
  then have t: "(\<Sum>j \<in> {j \<in> set (map fst ?g). degree ?g j \<ge> 1}. ?v j) = 1 + 2 + 3"
    by simp
  from score_conservation[OF v s enumerates_sorted l q e]
  have "\<exists>y. compute_next_scores (\<lambda>i. sorted_list_of_fset) ?g (Some ?x) = Inr (map Finite y) \<and>
      sum_list y = 1 + 2 + 3"
    unfolding t .
  with v s show ?thesis by blast
qed

lemma round_sum_1:
  "round_double (78062393541088597 / 9007199254740992) = Finite (4878899596318037 / 562949953421312)"
  by (rule round_double_nearI[where e = 3 and q = "- 49" and m = 4878899596318037]) simp_all

lemma round_sum_2:
  "round_double (84067193044249253 / 9007199254740992) = Finite (2627099782632789 / 281474976710656)"
  by (rule round_double_nearI[where e = 3 and q = "- 49" and m = 5254199565265578]) simp_all

lemma round_sum_3:
  "round_double (90071992547409909 / 9007199254740992) = Finite (5629499534213119 / 562949953421312)"
  by (rule round_double_nearI[where e = 3 and q = "- 49" and m = 5629499534213119]) simp_all

lemma round_sum_4:
  "round_double (5629499534213119 / 562949953421312) = Finite (5629499534213119 / 562949953421312)"
  by (rule round_double_nearI[where e = 3 and q = "- 49" and m = 5629499534213119]) simp_all

text \<open>
  On the star with centre \<open>1\<close>, leaves \<open>0, 2, 3\<close> and the isolated vertex \<open>4\<close>, with priors
  \<open>1.0, ..., 5.0\<close>, the quotient \<open>2.0 / 3\<close> is rounded; the priors of the vertices of
  positive degree add up to \<open>10\<close>, the entries returned do not, neither as rationals nor
  when Python adds them as floats.
\<close>

theorem score_conservation_counterexample:
  "compute_next_scores (\<lambda>i. sorted_list_of_fset)
     [(0, {|1|}), (1, {|0, 2, 3|}), (2, {|1|}), (3, {|1|}), (4, {||})]
     (Some [PyFloat (Finite 1), PyFloat (Finite 2), PyFloat (Finite 3), PyFloat (Finite 4),
            PyFloat (Finite 5)]) =
     Inr [Finite (6004799503160661 / 9007199254740992), Finite 8,
          Finite (6004799503160661 / 9007199254740992),
          Finite (6004799503160661 / 9007199254740992), Finite 0] \<and>
   sum_list [6004799503160661 / 9007199254740992, 8, 6004799503160661 / 9007199254740992,
      6004799503160661 / 9007199254740992, 0] \<noteq>
     (\<Sum>j \<in> {j \<in> set (map fst
                 ([(0, {|1|}), (1, {|0, 2, 3|}), (2, {|1|}), (3, {|1|}), (4, {||})] :: graph)).
               degree [(0, {|1|}), (1, {|0, 2, 3|}), (2, {|1|}), (3, {|1|}), (4, {||})] j \<ge> 1}.
        the (num_value ([PyFloat (Finite 1), PyFloat (Finite 2), PyFloat (Finite 3),
                         PyFloat (Finite 4), PyFloat (Finite 5)] ! nat j))) \<and>
   foldl fadd (Finite 0)
     [Finite (6004799503160661 / 9007199254740992), Finite 8,
      Finite (6004799503160661 / 9007199254740992),
      Finite (6004799503160661 / 9007199254740992), Finite 0] =
     Finite (5629499534213119 / 562949953421312) \<and>
   5629499534213119 / 562949953421312 \<noteq>
     (\<Sum>j \<in> {j \<in> set (map fst
                 ([(0, {|1|}), (1, {|0, 2, 3|}), (2, {|1|}), (3, {|1|}), (4, {||})] :: graph)).
               degree [(0, {|1|}), (1, {|0, 2, 3|}), (2, {|1|}), (3, {|1|}), (4, {||})] j \<ge> 1}.
        the (num_value ([PyFloat (Finite 1), PyFloat (Finite 2), PyFloat (Finite 3),
                         PyFloat (Finite 4), PyFloat (Finite 5)] ! nat j)))"
proof -
  let ?g = "[(0, {|1|}), (1, {|0, 2, 3|}), (2, {|1|}), (3, {|1|}), (4, {||})] :: graph"
  let ?x = "[PyFloat (Finite 1), PyFloat (Finite 2), PyFloat (Finite 3), PyFloat (Finite 4),
            PyFloat (Finite 5)]"
  let ?q = "\<lambda>j::int. if j = 0 then Finite 1
      else if j = 1 then Finite (6004799503160661 / 9007199254740992)
      else if j = 2 then Finite 3 else Finite 4"
  have "{0..<5} = {0, 1, 2, 3, 4::int}" by auto
  then have v: "vertices_ok ?g" by (simp add: vertices_ok_def)
  have c: "neighbors_in_graph ?g" by (simp add: neighbors_in_graph_def)
  have l: "length ?x = length ?g" by simp
  have d: "degree ?g j = (if j = 0 \<or> j = 2 \<or> j = 3 then 1 else if j = 1 then 3 else 0)" for j
    by (simp add: degree_def neighbors_def fcard_finsert_if fcard_fempty)
  have q: "\<forall>j \<in> set (map fst ?g). degree ?g j > 0 \<longrightarrow>
      true_divide (?x ! nat j) (degree ?g j) = Inr (?q j)"
    by (simp add: d float_eval)
  have u5: "[0..<5] = [0, 1, 2, 3, 4]" by (simp add: upt_rec)
  have run: "compute_next_scores (\<lambda>i. sorted_list_of_fset) ?g (Some ?x) =
      Inr [Finite (6004799503160661 / 9007199254740992), Finite 8,
          Finite (6004799503160661 / 9007199254740992),
          Finite (6004799503160661 / 9007199254740992), Finite 0]"
    using compute_next_scores_value[OF v c enumerates_sorted l q] u5
    by (simp add: neighbors_def d sorted_list_examples float_eval)
  have total: "foldl fadd (Finite 0)
     [Finite (6004799503160661 / 9007199254740992), Finite 8,
      Finite (6004799503160661 / 9007199254740992),
      Finite (6004799503160661 / 9007199254740992), Finite 0] =
     Finite (5629499534213119 / 562949953421312)"
    by (simp add: float_eval round_sum_1 round_sum_2 round_sum_3 round_sum_4)
  have "{j \<in> set (map fst ?g). degree ?g j \<ge> 1} = {0, 1, 2, 3}"
    by (auto simp: d)
  then have prior: "(\<Sum>j \<in> {j \<in> set (map fst ?g). degree ?g j \<ge> 1}.
      the (num_value (?x ! nat j))) = 10"
    by simp
  have a: "sum_list [6004799503160661 / 9007199254740992, 8, 6004799503160661 / 9007199254740992,
      6004799503160661 / 9007199254740992, 0] \<noteq>
      (\<Sum>j \<in> {j \<in> set (map fst ?g). degree ?g j \<ge> 1}. the (num_value (?x ! nat j)))"
    by (subst prior) simp
  have b: "5629499534213119 / 562949953421312 \<noteq>
      (\<Sum>j \<in> {j \<in> set (map fst ?g). degree ?g j \<ge> 1}. the (num_value (?x ! nat j)))"
    by (subst prior) simp
  from run a total b show ?thesis by blast
qed

section \<open>Properties of the interactive edge addition\<close>

lemma vertices_ok_key: "vertices_ok g \<Longrightarrow> i \<in> fst ` set g \<longleftrightarrow> 0 \<le> i \<and> i < int (length g)"
  by (auto simp: vertices_ok_def)

lemma check_attempt_cases:
  assumes "vertices_ok g"
  shows "check_attempt g i j =
     (if \<not> (0 \<le> i \<and> i < int (length g) \<and> 0 \<le> j \<and> j < int (length g)) then Inr (Some OutOfRange)
      else if i = j then Inr (Some DuplicateVertex)
      else if j |\<in>| neighbors g i then Inr (Some EdgeExists)
      else Inr None)"
  using vertices_ok_key[OF assms, of i]
  by (simp add: check_attempt_def Let_def lookup_key)

lemma add_edge_effect:
  assumes v: "vertices_ok g" and s: "symmetric g" and l: "no_self_loops g"
    and c: "check_attempt g i j = Inr None" and a: "add_edge g i j = Inr g'"
  shows "map fst g' = map fst g"
    and "neighbors g' i = finsert j (neighbors g i)"
    and "neighbors g' j = finsert i (neighbors g j)"
    and "\<forall>k. k \<noteq> i \<and> k \<noteq> j \<longrightarrow> neighbors g' k = neighbors g k"
    and "i \<noteq> j" and "j |\<notin>| neighbors g i" and "i |\<notin>| neighbors g j"
    and "i \<in> fst ` set g" and "j \<in> fst ` set g"
proof -
  have dist: "distinct (map fst g)" using v by (simp add: vertices_ok_def)
  from c have r: "0 \<le> i \<and> i < int (length g) \<and> 0 \<le> j \<and> j < int (length g)"
    and ne: "i \<noteq> j" and nij: "j |\<notin>| neighbors g i"
    unfolding check_attempt_cases[OF v] by (auto split: if_splits)
  then have ki: "i \<in> fst ` set g" and kj: "j \<in> fst ` set g"
    using vertices_ok_key[OF v] by auto
  from add_edge_key[OF ki kj] a
  have keys: "map fst g' = map fst g"
    and nb: "\<And>k. neighbors g' k = (if k = i \<and> k = j then finsert j (neighbors g k)
        else if k = i then finsert j (neighbors g k)
        else if k = j then finsert i (neighbors g k) else neighbors g k)"
    by auto
  show "map fst g' = map fst g" by (rule keys)
  show "neighbors g' i = finsert j (neighbors g i)" using nb[of i] by simp
  show "neighbors g' j = finsert i (neighbors g j)" using nb[of j] ne by simp
  show "\<forall>k. k \<noteq> i \<and> k \<noteq> j \<longrightarrow> neighbors g' k = neighbors g k" using nb by simp
  show "i \<noteq> j" by (rule ne)
  show "j |\<notin>| neighbors g i" by (rule nij)
  show "i |\<notin>| neighbors g j" using nij symmetric_iff[OF dist s, of j i] by simp
  show "i \<in> fst ` set g" by (rule ki)
  show "j \<in> fst ` set g" by (rule kj)
qed

lemma add_edge_count:
  assumes v: "vertices_ok g" and s: "symmetric g" and l: "no_self_loops g"
    and c: "check_attempt g i j = Inr None" and a: "add_edge g i j = Inr g'"
  shows "edge_count g' = edge_count g + 1"
proof -
  note e = add_edge_effect[OF assms]
  have dist: "distinct (map fst g)" using v by (simp add: vertices_ok_def)
  have dist': "distinct (map fst g')" using dist e(1) by simp
  let ?f = "\<lambda>h u. card {w \<in> fset (neighbors h u). u < w}"
  let ?m = "min i j"
  have step: "?f g' u = ?f g u + (if u = ?m then 1 else 0)" for u
  proof -
    consider "u = i" | "u = j" "u \<noteq> i" | "u \<noteq> i" "u \<noteq> j" by blast
    then show ?thesis
    proof cases
      case 1
      show ?thesis
      proof (cases "i < j")
        case True
        then have "{w \<in> fset (neighbors g' u). u < w} = insert j {w \<in> fset (neighbors g u). u < w}"
          using 1 e(2) by auto
        moreover have "j \<notin> {w \<in> fset (neighbors g u). u < w}" using 1 e(6) by simp
        ultimately show ?thesis using True 1 by simp
      next
        case False
        then have "{w \<in> fset (neighbors g' u). u < w} = {w \<in> fset (neighbors g u). u < w}"
          using 1 e(2) by auto
        then show ?thesis using False 1 e(5) by (simp add: min_def)
      qed
    next
      case 2
      show ?thesis
      proof (cases "j < i")
        case True
        then have "{w \<in> fset (neighbors g' u). u < w} = insert i {w \<in> fset (neighbors g u). u < w}"
          using 2 e(3) by auto
        moreover have "i \<notin> {w \<in> fset (neighbors g u). u < w}" using 2 e(7) by simp
        ultimately show ?thesis using True 2 by (simp add: min_def)
      next
        case False
        then have "{w \<in> fset (neighbors g' u). u < w} = {w \<in> fset (neighbors g u). u < w}"
          using 2 e(3) by auto
        then show ?thesis using False 2 e(5) by (simp add: min_def)
      qed
    next
      case 3
      then have "neighbors g' u = neighbors g u" using e(4) by simp
      then show ?thesis using 3 by (simp add: min_def)
    qed
  qed
  have m: "?m \<in> set (map fst g)" using e(8,9) by (simp add: min_def)
  have "edge_count g' = (\<Sum>u\<in>set (map fst g). ?f g' u)"
    using edge_count_sum[OF dist'] e(1) by simp
  also have "\<dots> = (\<Sum>u\<in>set (map fst g). ?f g u + (if u = ?m then 1 else 0))"
    by (rule sum.cong[OF refl]) (rule step)
  also have "\<dots> = (\<Sum>u\<in>set (map fst g). ?f g u) + (\<Sum>u\<in>set (map fst g). if u = ?m then 1 else 0)"
    by (rule sum.distrib)
  also have "(\<Sum>u\<in>set (map fst g). if u = ?m then 1 else 0) = (1::nat)"
    using m by (simp add: sum.delta)
  finally show ?thesis using edge_count_sum[OF dist] by simp
qed

lemma add_edge_invariants:
  assumes v: "vertices_ok g" and s: "symmetric g" and l: "no_self_loops g"
    and c: "check_attempt g i j = Inr None" and a: "add_edge g i j = Inr g'"
  shows "vertices_ok g' \<and> symmetric g' \<and> no_self_loops g'"
proof -
  note e = add_edge_effect[OF assms]
  have dist: "distinct (map fst g)" using v by (simp add: vertices_ok_def)
  have dist': "distinct (map fst g')" using dist e(1) by simp
  have len: "length g' = length g" using e(1) by (metis length_map)
  have nb: "neighbors g' k = (if k = i then finsert j (neighbors g k)
        else if k = j then finsert i (neighbors g k) else neighbors g k)" for k
    using e(2,3,4) by auto
  have "vertices_ok g'" using v e(1) len by (simp add: vertices_ok_def)
  moreover have "symmetric g'"
  proof (rule symmetricI[OF dist'])
    fix a b assume "b |\<in>| neighbors g' a"
    then show "a |\<in>| neighbors g' b"
      using symmetric_iff[OF dist s, of b a] by (auto simp: nb split: if_splits)
  qed
  moreover have "no_self_loops g'"
    using l e(5) unfolding no_self_loops_iff[OF dist'] no_self_loops_iff[OF dist]
    by (auto simp: nb)
  ultimately show ?thesis by simp
qed

lemma check_attempt_total:
  assumes "vertices_ok g"
  shows "check_attempt g u v = Inr None \<or> (\<exists>m. check_attempt g u v = Inr (Some m))"
  unfolding check_attempt_cases[OF assms] by simp

lemma prompt_loop_accepts:
  "prompt_loop g inputs = (out, Inr (i, j)) \<Longrightarrow> check_attempt g i j = Inr None"
proof (induction g inputs arbitrary: out rule: prompt_loop.induct)
  case (1 g)
  then show ?case by simp
next
  case (2 g rest)
  then show ?case by (auto split: prod.splits)
next
  case (3 g a b rest)
  then show ?case by (auto split: sum.splits option.splits prod.splits)
qed

lemma prompt_loop_no_added: "Added i j \<notin> set (fst (prompt_loop g inputs))"
proof (induction g inputs rule: prompt_loop.induct)
  case (1 g)
  then show ?case by simp
next
  case (2 g rest)
  then show ?case by (auto split: prod.splits)
next
  case (3 g a b rest)
  then show ?case
    by (auto simp: check_attempt_def Let_def split: sum.splits option.splits prod.splits if_splits)
qed

text \<open>The loop passes over the lines that are rejected and leaves with the first pair accepted.\<close>

lemma prompt_loop_first_accepted:
  assumes "vertices_ok g"
    and "\<forall>u v. Some (u, v) \<in> set pre \<longrightarrow> check_attempt g u v \<noteq> Inr None"
    and "check_attempt g i j = Inr None"
  shows "\<exists>out. prompt_loop g (pre @ Some (i, j) # rest) = (out, Inr (i, j))"
  using assms(2)
proof (induction pre)
  case Nil
  then show ?case using assms(3) by simp
next
  case (Cons a pre)
  then obtain out where out: "prompt_loop g (pre @ Some (i, j) # rest) = (out, Inr (i, j))"
    by auto
  show ?case
  proof (cases a)
    case None
    then show ?thesis using out by simp
  next
    case (Some p)
    obtain u v where p: "p = (u, v)" by (cases p)
    have "check_attempt g u v \<noteq> Inr None" using Cons.prems Some p by simp
    with check_attempt_total[OF assms(1), of u v] obtain m where "check_attempt g u v = Inr (Some m)"
      by blast
    then show ?thesis using Some p out by simp
  qed
qed

lemma add_edge_as_two: 
  "add_edge g i j = Inr g' \<longleftrightarrow> (\<exists>g1. add_neighbor g i j = Inr g1 \<and> add_neighbor g1 j i = Inr g')"
  by (auto simp: add_edge_def split: sum.splits)

text \<open>Once the loop has left with a pair, lines 98-100 add the edge and print, whatever follows.\<close>

lemma handle_after_acceptance:
  assumes "2 \<le> length g" and "prompt_loop g inputs = (out, Inr (i, j))" and "add_edge g i j = Inr g'"
  shows "graph_after (handle_user_edge_addition iter g cs inputs) = g' \<and>
         printed (handle_user_edge_addition iter g cs inputs) = out @ [Added i j]"
proof -
  from assms(3) obtain g1 where "add_neighbor g i j = Inr g1" "add_neighbor g1 j i = Inr g'"
    unfolding add_edge_as_two by blast
  then show ?thesis
    using assms(1,2) by (simp add: handle_user_edge_addition_def split: sum.splits)
qed

lemma handle_added:
  assumes "Added i j \<in> set (printed (handle_user_edge_addition iter g cs inputs))"
  shows "2 \<le> length g \<and> check_attempt g i j = Inr None \<and>
         add_edge g i j = Inr (graph_after (handle_user_edge_addition iter g cs inputs))"
proof -
  have n: "\<not> length g < 2"
  proof
    assume "length g < 2"
    then have "printed (handle_user_edge_addition iter g cs inputs) = [CannotAdd]"
      by (simp add: handle_user_edge_addition_def)
    with assms show False by simp
  qed
  obtain out r where p: "prompt_loop g inputs = (out, r)" by (cases "prompt_loop g inputs")
  have no: "Added i j \<notin> set out" using prompt_loop_no_added[of i j g inputs] p by simp
  show ?thesis
  proof (cases r)
    case (Inl e)
    then have "printed (handle_user_edge_addition iter g cs inputs) = out"
      using n p by (simp add: handle_user_edge_addition_def)
    with assms no show ?thesis by simp
  next
    case (Inr ab)
    obtain a b where ab: "ab = (a, b)" by (cases ab)
    have acc: "check_attempt g a b = Inr None" using p Inr ab prompt_loop_accepts by blast
    show ?thesis
    proof (cases "add_neighbor g a b")
      case (Inl e)
      then have "printed (handle_user_edge_addition iter g cs inputs) = out"
        using n p Inr ab by (simp add: handle_user_edge_addition_def)
      with assms no show ?thesis by simp
    next
      case g1: (Inr g1)
      show ?thesis
      proof (cases "add_neighbor g1 b a")
        case (Inl e)
        then have "printed (handle_user_edge_addition iter g cs inputs) = out"
          using n p Inr ab g1 by (simp add: handle_user_edge_addition_def)
        with assms no show ?thesis by simp
      next
        case g': (Inr g')
        have e: "add_edge g a b = Inr g'" unfolding add_edge_as_two using g1 g' by blast
        have n2: "2 \<le> length g" using n by simp
        note h = handle_after_acceptance[OF n2 p[unfolded Inr ab] e, of iter cs]
        with assms no have "a = i" "b = j" by auto
        with h e acc n2 show ?thesis by simp
      qed
    qed
  qed
qed

lemma example_run:
  "handle_user_edge_addition (\<lambda>i. sorted_list_of_fset) [(0, {|1|}), (1, {|0|}), (2, {||})]
     (Some [PyFloat (Finite 1), PyFloat (Finite 1), PyFloat (Finite 0)])
     [None, Some (0, 1), Some (2, 2), Some (5, 0), Some (2, 0)] =
   \<lparr>graph_after = [(0, {|2, 1|}), (1, {|0|}), (2, {|0|})],
    printed = [InvalidInput, EdgeExists, DuplicateVertex, OutOfRange, Added 2 0],
    outcome = Inr (Some [PyFloat (Finite 1), PyFloat (Finite (1 / 2)), PyFloat (Finite (1 / 2))])\<rparr>"
proof -
  let ?g = "[(0, {|1|}), (1, {|0|}), (2, {||})] :: graph"
  let ?g' = "[(0, {|2, 1|}), (1, {|0|}), (2, {|0|})] :: graph"
  let ?x = "[PyFloat (Finite 1), PyFloat (Finite 1), PyFloat (Finite 0)]"
  let ?q = "\<lambda>j::int. if j = 0 then Finite (1 / 2) else if j = 1 then Finite 1 else Finite 0"
  have p: "prompt_loop ?g [None, Some (0, 1), Some (2, 2), Some (5, 0), Some (2, 0)] =
      ([InvalidInput, EdgeExists, DuplicateVertex, OutOfRange], Inr (2, 0))"
    by (simp add: check_attempt_def lookup_def)
  have a1: "add_neighbor ?g 2 0 = Inr [(0, {|1|}), (1, {|0|}), (2, {|0|})]"
    by (simp add: add_neighbor_def lookup_def)
  have a2: "add_neighbor [(0, {|1|}), (1, {|0|}), (2, {|0|})] 0 2 = Inr ?g'"
    by (simp add: add_neighbor_def lookup_def)
  have "{0..<3} = {0, 1, 2::int}" by auto
  then have v: "vertices_ok ?g'" by (simp add: vertices_ok_def)
  have c: "neighbors_in_graph ?g'" by (simp add: neighbors_in_graph_def)
  have d: "degree ?g' j = (if j = 0 then 2 else if j = 1 \<or> j = 2 then 1 else 0)" for j
    by (simp add: degree_def neighbors_def fcard_finsert_if fcard_fempty)
  have q: "\<forall>j \<in> set (map fst ?g'). degree ?g' j > 0 \<longrightarrow>
      true_divide (?x ! nat j) (degree ?g' j) = Inr (?q j)"
    by (simp add: d float_eval)
  have u3: "[0..<3] = [0, 1, 2]" by (simp add: upt_rec)
  have s: "compute_next_scores (\<lambda>i. sorted_list_of_fset) ?g' (Some ?x) =
      Inr [Finite 1, Finite (1 / 2), Finite (1 / 2)]"
    using compute_next_scores_value[OF v c enumerates_sorted _ q] u3
    by (simp add: neighbors_def d sorted_list_examples float_eval)
  have dsp: "display_graph_state ?g' [Finite 1, Finite (1 / 2), Finite (1 / 2)] = Inr ()"
    by (simp add: display_graph_state_def py_index_def)
  show ?thesis
    unfolding handle_user_edge_addition_def p by (simp add: a1 a2 s dsp)
qed

text \<open>
  A call that adds the edge and then fails: the score list is too short, line 102 raises
  \<^verbatim>\<open>IndexError\<close>, and the graph keeps the edge.
\<close>

lemma example_run_raises:
  "handle_user_edge_addition (\<lambda>i. sorted_list_of_fset) [(0, {||}), (1, {||})] (Some [])
     [Some (0, 1)] =
   \<lparr>graph_after = [(0, {|1|}), (1, {|0|})], printed = [Added 0 1], outcome = Inl IndexError\<rparr>"
proof -
  let ?g = "[(0, {||}), (1, {||})] :: graph"
  let ?g' = "[(0, {|1|}), (1, {|0|})] :: graph"
  have p: "prompt_loop ?g [Some (0, 1)] = ([], Inr (0, 1))"
    by (simp add: check_attempt_def lookup_def)
  have a1: "add_neighbor ?g 0 1 = Inr [(0, {|1|}), (1, {||})]"
    by (simp add: add_neighbor_def lookup_def)
  have a2: "add_neighbor [(0, {|1|}), (1, {||})] 1 0 = Inr ?g'"
    by (simp add: add_neighbor_def lookup_def)
  have s: "compute_next_scores (\<lambda>i. sorted_list_of_fset) ?g' (Some []) = Inl IndexError"
    by (simp add: compute_next_scores_def lookup_def sorted_list_examples score_step_def
        degrees_def fcard_finsert_if fcard_fempty py_index_def)
  show ?thesis
    unfolding handle_user_edge_addition_def p by (simp add: a1 a2 s)
qed

text \<open>
  Claim C4, as amended. On a graph whose vertices are \<open>0, ..., n - 1\<close>, the checks of
  lines 87-94 reject a pair \<open>(i, j)\<close> with \<open>OutOfRange\<close> when \<open>i\<close> or \<open>j\<close> is outside
  \<open>[0, n - 1]\<close>, with \<open>DuplicateVertex\<close> when both are in range and \<open>i = j\<close>, and with
  \<open>EdgeExists\<close> when both are in range, \<open>i \<noteq> j\<close> and \<open>j\<close> is a neighbour of \<open>i\<close>; they
  accept the pair exactly when none of the three conditions holds, and
  \<open>handle_user_edge_addition\<close> adds the edge \<open>(i, j)\<close> only then (and only when \<open>n \<ge> 2\<close>).
  The checks run in this order, so a pair that is out of range and has \<open>i = j\<close> is
  reported as \<open>OutOfRange\<close>: the counterexample below.
\<close>

theorem check_attempt_classification:
  assumes "vertices_ok g"
  shows "(\<not> (0 \<le> i \<and> i < int (length g) \<and> 0 \<le> j \<and> j < int (length g)) \<longrightarrow>
            check_attempt g i j = Inr (Some OutOfRange)) \<and>
         (0 \<le> i \<and> i < int (length g) \<and> i = j \<longrightarrow>
            check_attempt g i j = Inr (Some DuplicateVertex)) \<and>
         (0 \<le> i \<and> i < int (length g) \<and> 0 \<le> j \<and> j < int (length g) \<and> i \<noteq> j \<and>
          j |\<in>| neighbors g i \<longrightarrow>
            check_attempt g i j = Inr (Some EdgeExists)) \<and>
         (check_attempt g i j = Inr None \<longleftrightarrow>
            0 \<le> i \<and> i < int (length g) \<and> 0 \<le> j \<and> j < int (length g) \<and> i \<noteq> j \<and>
            j |\<notin>| neighbors g i) \<and>
         (\<forall>iter cs inputs.
            Added i j \<in> set (printed (handle_user_edge_addition iter g cs inputs)) \<longrightarrow>
            2 \<le> length g \<and> check_attempt g i j = Inr None)"
proof -
  have "\<forall>iter cs inputs.
      Added i j \<in> set (printed (handle_user_edge_addition iter g cs inputs)) \<longrightarrow>
      2 \<le> length g \<and> check_attempt g i j = Inr None"
    using handle_added by blast
  moreover have "\<not> (0 \<le> i \<and> i < int (length g) \<and> 0 \<le> j \<and> j < int (length g)) \<longrightarrow>
      check_attempt g i j = Inr (Some OutOfRange)"
    by (simp add: check_attempt_cases[OF assms])
  moreover have "0 \<le> i \<and> i < int (length g) \<and> i = j \<longrightarrow>
      check_attempt g i j = Inr (Some DuplicateVertex)"
    by (simp add: check_attempt_cases[OF assms])
  moreover have "0 \<le> i \<and> i < int (length g) \<and> 0 \<le> j \<and> j < int (length g) \<and> i \<noteq> j \<and>
      j |\<in>| neighbors g i \<longrightarrow> check_attempt g i j = Inr (Some EdgeExists)"
    by (simp add: check_attempt_cases[OF assms])
  moreover have "check_attempt g i j = Inr None \<longleftrightarrow>
      0 \<le> i \<and> i < int (length g) \<and> 0 \<le> j \<and> j < int (length g) \<and> i \<noteq> j \<and>
      j |\<notin>| neighbors g i"
    unfolding check_attempt_cases[OF assms] by auto
  ultimately show ?thesis by blast
qed

theorem check_attempt_classification_witness:
  "check_attempt [(0, {|1|}), (1, {|0|}), (2, {||})] 5 0 = Inr (Some OutOfRange) \<and>
   check_attempt [(0, {|1|}), (1, {|0|}), (2, {||})] 2 2 = Inr (Some DuplicateVertex) \<and>
   check_attempt [(0, {|1|}), (1, {|0|}), (2, {||})] 0 1 = Inr (Some EdgeExists) \<and>
   check_attempt [(0, {|1|}), (1, {|0|}), (2, {||})] 2 0 = Inr None"
proof -
  let ?g = "[(0, {|1|}), (1, {|0|}), (2, {||})] :: graph"
  have "{0..<3} = {0, 1, 2::int}" by auto
  then have v: "vertices_ok ?g" by (simp add: vertices_ok_def)
  have "check_attempt ?g 5 0 = Inr (Some OutOfRange)"
    using check_attempt_classification[OF v, of 5 0] by simp
  moreover have "check_attempt ?g 2 2 = Inr (Some DuplicateVertex)"
    using check_attempt_classification[OF v, of 2 2] by simp
  moreover have "check_attempt ?g 0 1 = Inr (Some EdgeExists)"
    using check_attempt_classification[OF v, of 0 1] by (simp add: neighbors_def)
  moreover have "check_attempt ?g 2 0 = Inr None"
  proof -
    have "Added 2 0 \<in> set (printed (handle_user_edge_addition (\<lambda>i. sorted_list_of_fset) ?g
        (Some [PyFloat (Finite 1), PyFloat (Finite 1), PyFloat (Finite 0)])
        [None, Some (0, 1), Some (2, 2), Some (5, 0), Some (2, 0)]))"
      unfolding example_run by simp
    with check_attempt_classification[OF v, of 2 0] show ?thesis by blast
  qed
  ultimately show ?thesis by simp
qed

theorem duplicate_vertex_counterexample:
  "check_attempt [(0, {||}), (1, {||}), (2, {||})] 7 7 = Inr (Some OutOfRange) \<and>
   check_attempt [(0, {||}), (1, {||}), (2, {||})] 7 7 \<noteq> Inr (Some DuplicateVertex)"
  by (simp add: check_attempt_def)

text \<open>
  Claim C5. On a graph with the invariants, when the user enters a pair \<open>(i, j)\<close> that the
  checks accept, after lines that they reject, \<open>handle_user_edge_addition\<close> adds the edge
  and reports it: in the graph it leaves, which is the result of the two statements of
  lines 98-99, \<open>j\<close> is a neighbour of \<open>i\<close> and \<open>i\<close> of \<open>j\<close>, the number of undirected edges
  has grown by exactly one, the neighbour sets of \<open>i\<close> and \<open>j\<close> have gained \<open>j\<close> and \<open>i\<close>
  and nothing else, the neighbour sets of all other vertices and the keys are as before,
  and symmetry and the absence of self-loops still hold. This is so whether the score
  update of line 102 and the display of line 104 return or raise.
\<close>

theorem add_edge_postcondition:
  assumes "vertices_ok g" and "symmetric g" and "no_self_loops g"
    and "\<forall>u v. Some (u, v) \<in> set pre \<longrightarrow> check_attempt g u v \<noteq> Inr None"
    and "check_attempt g i j = Inr None"
  shows "(let g' = graph_after (handle_user_edge_addition iter g cs (pre @ Some (i, j) # rest))
          in add_edge g i j = Inr g' \<and>
             j |\<in>| neighbors g' i \<and> i |\<in>| neighbors g' j \<and>
             edge_count g' = edge_count g + 1 \<and>
             (\<forall>k. k \<noteq> i \<and> k \<noteq> j \<longrightarrow> neighbors g' k = neighbors g k) \<and>
             neighbors g' i = finsert j (neighbors g i) \<and>
             neighbors g' j = finsert i (neighbors g j) \<and>
             map fst g' = map fst g \<and> symmetric g' \<and> no_self_loops g') \<and>
         Added i j \<in> set (printed (handle_user_edge_addition iter g cs (pre @ Some (i, j) # rest)))"
proof -
  let ?r = "handle_user_edge_addition iter g cs (pre @ Some (i, j) # rest)"
  from assms(5) have r: "0 \<le> i \<and> i < int (length g) \<and> 0 \<le> j \<and> j < int (length g)" "i \<noteq> j"
    unfolding check_attempt_cases[OF assms(1)] by (auto split: if_splits)
  then have n: "2 \<le> length g" by auto
  have ki: "i \<in> fst ` set g" and kj: "j \<in> fst ` set g"
    using r(1) vertices_ok_key[OF assms(1)] by auto
  from add_edge_key[OF ki kj] obtain g' where g': "add_edge g i j = Inr g'" by blast
  from prompt_loop_first_accepted[OF assms(1,4,5), of rest]
  obtain out where out: "prompt_loop g (pre @ Some (i, j) # rest) = (out, Inr (i, j))" by blast
  from handle_after_acceptance[OF n out g', of iter cs]
  have ga: "graph_after ?r = g'" and pr: "printed ?r = out @ [Added i j]" by simp_all
  note e = add_edge_effect[OF assms(1-3,5) g']
  have "edge_count g' = edge_count g + 1" using add_edge_count[OF assms(1-3,5) g'] .
  moreover have "symmetric g' \<and> no_self_loops g'"
    using add_edge_invariants[OF assms(1-3,5) g'] by simp
  ultimately show ?thesis using e(1-4) g' ga pr by (simp add: Let_def)
qed

theorem add_edge_postcondition_witness:
  "graph_after (handle_user_edge_addition (\<lambda>i. sorted_list_of_fset)
      [(0, {|1|}), (1, {|0|}), (2, {||})]
      (Some [PyFloat (Finite 1), PyFloat (Finite 1), PyFloat (Finite 0)])
      ([None, Some (0, 1), Some (2, 2), Some (5, 0)] @ Some (2, 0) # [])) =
     [(0, {|2, 1|}), (1, {|0|}), (2, {|0|})] \<and>
   edge_count [(0, {|2, 1|}), (1, {|0|}), (2, {|0|})] =
     edge_count [(0, {|1|}), (1, {|0|}), (2, {||})] + 1 \<and>
   symmetric [(0, {|2, 1|}), (1, {|0|}), (2, {|0|})] \<and>
   no_self_loops [(0, {|2, 1|}), (1, {|0|}), (2, {|0|})] \<and>
   graph_after (handle_user_edge_addition (\<lambda>i. sorted_list_of_fset) [(0, {||}), (1, {||})]
      (Some []) ([] @ Some (0, 1) # [])) = [(0, {|1|}), (1, {|0|})] \<and>
   outcome (handle_user_edge_addition (\<lambda>i. sorted_list_of_fset) [(0, {||}), (1, {||})]
      (Some []) ([] @ Some (0, 1) # [])) = Inl IndexError \<and>
   edge_count [(0, {|1|}), (1, {|0|})] = edge_count [(0, {||}), (1, {||})] + 1"
proof -
  let ?g = "[(0, {|1|}), (1, {|0|}), (2, {||})] :: graph"
  let ?h = "[(0, {||}), (1, {||})] :: graph"
  let ?pre = "[None, Some (0, 1), Some (2, 2), Some (5, 0)] :: (int \<times> int) option list"
  have "{0..<3} = {0, 1, 2::int}" by auto
  then have v: "vertices_ok ?g" by (simp add: vertices_ok_def)
  have s: "symmetric ?g" by (simp add: symmetric_def neighbors_def)
  have l: "no_self_loops ?g" by (simp add: no_self_loops_def)
  have rej: "\<forall>u v. Some (u, v) \<in> set ?pre \<longrightarrow> check_attempt ?g u v \<noteq> Inr None"
    by (auto simp: check_attempt_def lookup_def)
  have acc: "check_attempt ?g 2 0 = Inr None" by (simp add: check_attempt_def lookup_def)
  have "{0..<2} = {0, 1::int}" by auto
  then have v2: "vertices_ok ?h" by (simp add: vertices_ok_def)
  have s2: "symmetric ?h" by (simp add: symmetric_def neighbors_def)
  have l2: "no_self_loops ?h" by (simp add: no_self_loops_def)
  have rej2: "\<forall>u v. Some (u, v) \<in> set ([] :: (int \<times> int) option list) \<longrightarrow>
      check_attempt ?h u v \<noteq> Inr None" by simp
  have acc2: "check_attempt ?h 0 1 = Inr None" by (simp add: check_attempt_def lookup_def)
  note t1 = add_edge_postcondition[OF v s l rej acc, of "\<lambda>i. sorted_list_of_fset"
      "Some [PyFloat (Finite 1), PyFloat (Finite 1), PyFloat (Finite 0)]" "[]"]
  note t2 = add_edge_postcondition[OF v2 s2 l2 rej2 acc2, of "\<lambda>i. sorted_list_of_fset" "Some []" "[]"]
  show ?thesis
    using t1 t2 example_run example_run_raises by (simp add: Let_def)
qed

section \<open>The score update does not change its arguments\<close>

text \<open>
  Each loop on the store does what the loop on values does, and leaves its result in
  the list at \<open>ya\<close>; nothing else is written.
\<close>

lemma get_list_Inr: "get_list h a = Inr xs \<longleftrightarrow> a < length h \<and> h ! a = ListObj xs"
  by (auto simp: get_list_def split: obj.splits)

lemma get_set_Inr: "get_set h a = Inr s \<longleftrightarrow> a < length h \<and> h ! a = SetObj s"
  by (auto simp: get_set_def split: obj.splits)

lemma get_dict_Inr: "get_dict h a = Inr es \<longleftrightarrow> a < length h \<and> h ! a = DictObj es"
  by (auto simp: get_dict_def split: obj.splits)

lemma get_degs_Inr: "get_degs h a = Inr ds \<longleftrightarrow> a < length h \<and> h ! a = DegObj ds"
  by (auto simp: get_degs_def split: obj.splits)

lemma get_set_at: "get_set h a = Inr s \<Longrightarrow> set_at h a = s"
  by (simp add: set_at_def)

lemma score_step_heap_sim:
  assumes "get_degs h da = Inr degs" "get_list h xa = Inr x"
    and "get_list h ya = Inr (map PyFloat y)" "ya \<noteq> xa"
  shows "score_step_heap h da xa ya i j =
     (case score_step degs x i j y of
        Inl e \<Rightarrow> Inl e | Inr y' \<Rightarrow> Inr (h[ya := ListObj (map PyFloat y')]))"
proof -
  have same: "h[ya := ListObj (map PyFloat y)] = h"
    using assms(3) by (simp add: get_list_Inr list_update_same_conv)
  have ix: "py_index (map PyFloat y) i = py_index y i" by (simp add: py_index_def)
  have st: "h[ya := ListObj ((map PyFloat y)[p := PyFloat (fadd (y ! p) c)])] =
      h[ya := ListObj (map PyFloat (y[p := fadd (y ! p) c]))]" for p c
    by (simp add: map_update)
  show ?thesis
  proof (cases "map_of degs j")
    case None
    then show ?thesis using assms(1) by (simp add: score_step_heap_def score_step_def)
  next
    case (Some d)
    show ?thesis
    proof (cases "py_index y i")
      case (Inl e)
      then show ?thesis
        using assms(1-3) Some same by (simp add: score_step_heap_def score_step_def ix)
    next
      case (Inr p)
      then have p: "p < length y" by (rule py_index_less)
      then have "num_add (map PyFloat y ! p) c = Inr (fadd (y ! p) c)" for c
        by (simp add: num_add_def)
      then show ?thesis
        using assms(1-3) Some Inr same st
        by (simp add: score_step_heap_def score_step_def ix split: sum.splits)
    qed
  qed
qed

lemma inner_loop_heap_sim:
  assumes "get_degs h da = Inr degs" "get_list h xa = Inr x"
    and "get_list h ya = Inr (map PyFloat y)" "ya \<noteq> xa"
  shows "inner_loop_heap h da xa ya i js =
     (case inner_loop degs x i js y of
        Inl e \<Rightarrow> Inl e | Inr y' \<Rightarrow> Inr (h[ya := ListObj (map PyFloat y')]))"
  using assms
proof (induction js arbitrary: h y)
  case Nil
  then have "h[ya := ListObj (map PyFloat y)] = h" by (simp add: get_list_Inr list_update_same_conv)
  then show ?case by simp
next
  case (Cons j js)
  note sim = score_step_heap_sim[OF Cons.prems, of i j]
  show ?case
  proof (cases "score_step degs x i j y")
    case (Inl e)
    then show ?thesis using sim by simp
  next
    case (Inr y1)
    let ?h1 = "h[ya := ListObj (map PyFloat y1)]"
    have ya: "ya < length h" using Cons.prems(3) by (simp add: get_list_Inr)
    have "da \<noteq> ya" using Cons.prems(1,3) by (auto simp: get_degs_Inr get_list_Inr)
    then have 1: "get_degs ?h1 da = Inr degs" using Cons.prems(1) by (simp add: get_degs_Inr)
    have 2: "get_list ?h1 xa = Inr x" using Cons.prems(2,4) by (simp add: get_list_Inr)
    have 3: "get_list ?h1 ya = Inr (map PyFloat y1)" using ya by (simp add: get_list_Inr)
    from Cons.IH[OF 1 2 3 Cons.prems(4)] Inr sim show ?thesis
      by (simp split: sum.splits)
  qed
qed

lemma degrees_heap_sim:
  assumes "\<forall>(k, a) \<in> set entries. get_set h a = Inr (S a)"
  shows "degrees_heap h entries = Inr (degrees (map (\<lambda>(k, a). (k, S a)) entries))"
  using assms by (induction entries) (auto simp: degrees_def)

lemma degrees_heap_sets:
  "degrees_heap h entries = Inr ds \<Longrightarrow> \<forall>(k, a) \<in> set entries. get_set h a = Inr (set_at h a)"
proof (induction entries arbitrary: ds)
  case Nil
  then show ?case by simp
next
  case (Cons e es)
  obtain k a where e: "e = (k, a)" by (cases e)
  from Cons.prems e obtain s ds' where s: "get_set h a = Inr s" and ds': "degrees_heap h es = Inr ds'"
    by (auto split: sum.splits)
  from Cons.IH[OF ds'] s e show ?case by (simp add: get_set_at)
qed

lemma outer_loop_heap_sim:
  assumes "get_dict h ga = Inr entries" "\<forall>(k, a) \<in> set entries. get_set h a = Inr (S a)"
    and "get_degs h da = Inr degs" "get_list h xa = Inr x"
    and "get_list h ya = Inr (map PyFloat y)" "ya \<noteq> xa"
  shows "outer_loop_heap iter h ga da xa ya ks =
     (case outer_loop iter (map (\<lambda>(k, a). (k, S a)) entries) degs x ks y of
        Inl e \<Rightarrow> Inl e | Inr y' \<Rightarrow> Inr (h[ya := ListObj (map PyFloat y')]))"
  using assms
proof (induction ks arbitrary: h y)
  case Nil
  then have "h[ya := ListObj (map PyFloat y)] = h" by (simp add: get_list_Inr list_update_same_conv)
  then show ?case by simp
next
  case (Cons i ks)
  let ?g = "map (\<lambda>(k, a). (k, S a)) entries"
  have mo: "map_of ?g i = map_option S (map_of entries i)"
    by (induction entries) auto
  show ?case
  proof (cases "map_of entries i")
    case None
    then show ?thesis using Cons.prems(1) mo by (simp add: lookup_def)
  next
    case (Some sa)
    then have "(i, sa) \<in> set entries" by (rule map_of_SomeD)
    then have sa: "get_set h sa = Inr (S sa)" using Cons.prems(2) by auto
    have look: "lookup ?g i = Inr (S sa)" using mo Some by (simp add: lookup_def)
    note sim = inner_loop_heap_sim[OF Cons.prems(3-6), of i "iter i (S sa)"]
    show ?thesis
    proof (cases "inner_loop degs x i (iter i (S sa)) y")
      case (Inl e)
      then show ?thesis using Cons.prems(1) Some sa look sim by simp
    next
      case (Inr y1)
      let ?h1 = "h[ya := ListObj (map PyFloat y1)]"
      have ya: "ya < length h" using Cons.prems(5) by (simp add: get_list_Inr)
      have "ga \<noteq> ya" using Cons.prems(1,5) by (auto simp: get_dict_Inr get_list_Inr)
      then have 1: "get_dict ?h1 ga = Inr entries" using Cons.prems(1) by (simp add: get_dict_Inr)
      have 2: "\<forall>(k, a) \<in> set entries. get_set ?h1 a = Inr (S a)"
      proof clarify
        fix k a assume "(k, a) \<in> set entries"
        then have a: "get_set h a = Inr (S a)" using Cons.prems(2) by auto
        then have "a \<noteq> ya" using Cons.prems(5) by (auto simp: get_set_Inr get_list_Inr)
        then show "get_set ?h1 a = Inr (S a)" using a by (simp add: get_set_Inr)
      qed
      have "da \<noteq> ya" using Cons.prems(3,5) by (auto simp: get_degs_Inr get_list_Inr)
      then have 3: "get_degs ?h1 da = Inr degs" using Cons.prems(3) by (simp add: get_degs_Inr)
      have 4: "get_list ?h1 xa = Inr x" using Cons.prems(4,6) by (simp add: get_list_Inr)
      have 5: "get_list ?h1 ya = Inr (map PyFloat y1)" using ya by (simp add: get_list_Inr)
      from Cons.IH[OF 1 2 3 4 5 Cons.prems(6)] Inr Cons.prems(1) Some sa look sim
      show ?thesis by (simp split: sum.splits)
    qed
  qed
qed

lemma get_set_append: "get_set h a = Inr s \<Longrightarrow> get_set (h @ h') a = Inr s"
  by (simp add: get_set_Inr nth_append)

lemma get_list_append: "get_list h a = Inr s \<Longrightarrow> get_list (h @ h') a = Inr s"
  by (simp add: get_list_Inr nth_append)

lemma get_dict_append: "get_dict h a = Inr s \<Longrightarrow> get_dict (h @ h') a = Inr s"
  by (simp add: get_dict_Inr nth_append)

lemma graph_at_keys: "get_dict h ga = Inr entries \<Longrightarrow> map fst (graph_at h ga) = map fst entries"
  by (simp add: graph_at_def comp_def case_prod_beta)

lemma compute_next_scores_heap_refines:
  assumes d: "get_dict h ga = Inr entries"
    and sets: "\<forall>(k, a) \<in> set entries. get_set h a = Inr (set_at h a)"
    and sc: "cs = None \<or> (\<exists>a xs. cs = Some a \<and> get_list h a = Inr xs)"
  shows "compute_next_scores_heap iter h ga cs =
     (case compute_next_scores iter (graph_at h ga) (scores_at h cs) of
        Inl e \<Rightarrow> Inl e
      | Inr y \<Rightarrow>
          Inr (h @ [ListObj (case scores_at h cs of
                              None \<Rightarrow> replicate (length entries) (PyFloat (Finite 1)) | Some xs \<Rightarrow> xs),
                    ListObj (map PyFloat y), DegObj (degrees (graph_at h ga))],
               Suc (length h)))"
proof -
  let ?n = "length entries"
  let ?g = "map (\<lambda>(k, a). (k, set_at h a)) entries"
  let ?x = "case scores_at h cs of None \<Rightarrow> replicate ?n (PyFloat (Finite 1)) | Some xs \<Rightarrow> xs"
  let ?h2 = "h @ [ListObj ?x, ListObj (replicate ?n (PyFloat (Finite 0)))]"
  let ?h3 = "h @ [ListObj ?x, ListObj (replicate ?n (PyFloat (Finite 0))), DegObj (degrees ?g)]"
  let ?xa = "length h" and ?ya = "Suc (length h)" and ?da = "Suc (Suc (length h))"
  have g: "graph_at h ga = ?g" using d by (simp add: graph_at_def)
  have x: "(case cs of None \<Rightarrow> Inr (replicate ?n (PyFloat (Finite 1))) | Some a \<Rightarrow> get_list h a) = Inr ?x"
    using sc by (auto simp: scores_at_def)
  have sets2: "\<forall>(k, a) \<in> set entries. get_set ?h2 a = Inr (set_at h a)"
    using sets by (auto simp: get_set_Inr nth_append)
  have degs: "degrees_heap ?h2 entries = Inr (degrees ?g)"
    using degrees_heap_sim[OF sets2] .
  have 1: "get_dict ?h3 ga = Inr entries"
    using d by (auto simp: get_dict_Inr nth_append)
  have 2: "\<forall>(k, a) \<in> set entries. get_set ?h3 a = Inr (set_at h a)"
    using sets by (auto simp: get_set_Inr nth_append)
  have 3: "get_degs ?h3 ?da = Inr (degrees ?g)" by (simp add: get_degs_Inr nth_append)
  have 4: "get_list ?h3 ?xa = Inr ?x" by (simp add: get_list_Inr nth_append)
  have 5: "get_list ?h3 ?ya = Inr (map PyFloat (replicate ?n (Finite 0)))" by (simp add: get_list_Inr nth_append)
  have 6: "?ya \<noteq> ?xa" by simp
  have upd: "?h3[?ya := ListObj (map PyFloat y)] = h @ [ListObj ?x, ListObj (map PyFloat y), DegObj (degrees ?g)]" for y
    by (simp add: list_update_append)
  have heap: "compute_next_scores_heap iter h ga cs =
      (case outer_loop iter ?g (degrees ?g) ?x (map fst entries) (replicate ?n (Finite 0)) of
         Inl e \<Rightarrow> Inl e
       | Inr y \<Rightarrow> Inr (h @ [ListObj ?x, ListObj (map PyFloat y), DegObj (degrees ?g)], ?ya))"
    by (simp add: compute_next_scores_heap_def d Let_def x alloc_def degs
        outer_loop_heap_sim[OF 1 2 3 4 5 6] upd split: sum.splits)
  have "(case scores_at h cs of None \<Rightarrow> replicate (length ?g) (PyFloat (Finite 1)) | Some xs \<Rightarrow> xs) = ?x"
    by (cases "scores_at h cs") simp_all
  then have pure: "compute_next_scores iter ?g (scores_at h cs) =
      outer_loop iter ?g (degrees ?g) ?x (map fst entries) (replicate ?n (Finite 0))"
    by (simp add: compute_next_scores_def Let_def comp_def case_prod_beta)
  show ?thesis unfolding g heap pure by simp
qed

lemma compute_next_scores_heap_typed:
  assumes "compute_next_scores_heap iter h ga cs = Inr (h', r)"
  shows "\<exists>entries. get_dict h ga = Inr entries \<and>
           (\<forall>(k, a) \<in> set entries. get_set h a = Inr (set_at h a)) \<and>
           (cs = None \<or> (\<exists>a xs. cs = Some a \<and> get_list h a = Inr xs))"
proof -
  from assms obtain entries where d: "get_dict h ga = Inr entries"
    by (auto simp: compute_next_scores_heap_def split: sum.splits)
  from assms d obtain x where
    x: "(case cs of None \<Rightarrow> Inr (replicate (length entries) (PyFloat (Finite 1))) | Some a \<Rightarrow> get_list h a) = Inr x"
    by (auto simp: compute_next_scores_heap_def Let_def split: sum.splits)
  from assms d x obtain degs where
    "degrees_heap (h @ [ListObj x] @ [ListObj (replicate (length entries) (PyFloat (Finite 0)))]) entries = Inr degs"
    by (auto simp: compute_next_scores_heap_def Let_def alloc_def split: sum.splits)
  from degrees_heap_sets[OF this]
  have s2: "\<forall>(k, a) \<in> set entries. \<exists>s.
      get_set (h @ [ListObj x] @ [ListObj (replicate (length entries) (PyFloat (Finite 0)))]) a = Inr s"
    by blast
  have "\<forall>(k, a) \<in> set entries. get_set h a = Inr (set_at h a)"
  proof clarify
    fix k a assume "(k, a) \<in> set entries"
    with s2 obtain s where
      s: "get_set (h @ [ListObj x] @ [ListObj (replicate (length entries) (PyFloat (Finite 0)))]) a = Inr s" by blast
    then have "a < length h"
      by (cases "a < length h"; cases "a = length h") (auto simp: get_set_Inr nth_append)
    with s have "get_set h a = Inr s" by (simp add: get_set_Inr nth_append)
    then show "get_set h a = Inr (set_at h a)" by (simp add: get_set_at)
  qed
  moreover have "cs = None \<or> (\<exists>a xs. cs = Some a \<and> get_list h a = Inr xs)"
    using x by (cases cs) auto
  ultimately show ?thesis using d by blast
qed

lemma graph_at_append:
  assumes "get_dict h ga = Inr entries" "\<forall>(k, a) \<in> set entries. get_set h a = Inr (set_at h a)"
  shows "graph_at (h @ h') ga = graph_at h ga"
proof -
  have "set_at (h @ h') a = set_at h a" if "(k, a) \<in> set entries" for k a
  proof -
    from assms(2) that have "get_set h a = Inr (set_at h a)" by blast
    then have "get_set (h @ h') a = Inr (set_at h a)" by (rule get_set_append)
    then show ?thesis by (rule get_set_at)
  qed
  then have "map (\<lambda>(k, a). (k, set_at (h @ h') a)) entries = map (\<lambda>(k, a). (k, set_at h a)) entries"
    by (intro map_cong refl) auto
  then show ?thesis
    using assms(1) get_dict_append[OF assms(1), of h'] by (simp add: graph_at_def)
qed

lemma scores_at_append:
  assumes "cs = None \<or> (\<exists>a xs. cs = Some a \<and> get_list h a = Inr xs)"
  shows "scores_at (h @ h') cs = scores_at h cs"
  using assms get_list_append[of h _ _ h'] by (auto simp: scores_at_def)

text \<open>
  Claim C10. \<open>compute_next_scores\<close> is deterministic and stateless. When a call returns,
  every object that was in the store before the call is as it was, among them the graph,
  its neighbour sets and the score list passed in; the vector returned is a new object;
  it holds what the function on values computes from the graph and the scores; and a
  second call with the same arguments returns a vector with the same entries and again
  leaves the arguments as they were.
\<close>

theorem compute_next_scores_stateless:
  assumes "compute_next_scores_heap iter h ga cs = Inr (h', r)"
  shows "take (length h) h' = h \<and> length h \<le> r \<and> r < length h' \<and>
         graph_at h' ga = graph_at h ga \<and> scores_at h' cs = scores_at h cs \<and>
         (\<exists>y. h' ! r = ListObj (map PyFloat y) \<and>
              compute_next_scores iter (graph_at h ga) (scores_at h cs) = Inr y \<and>
              (\<exists>h'' r'. compute_next_scores_heap iter h' ga cs = Inr (h'', r') \<and>
                  h'' ! r' = ListObj (map PyFloat y) \<and> take (length h) h'' = h \<and>
                  graph_at h'' ga = graph_at h ga \<and> scores_at h'' cs = scores_at h cs))"
proof -
  from compute_next_scores_heap_typed[OF assms] obtain entries where
    d: "get_dict h ga = Inr entries"
    and sets: "\<forall>(k, a) \<in> set entries. get_set h a = Inr (set_at h a)"
    and sc: "cs = None \<or> (\<exists>a xs. cs = Some a \<and> get_list h a = Inr xs)"
    by blast
  let ?x = "case scores_at h cs of None \<Rightarrow> replicate (length entries) (PyFloat (Finite 1)) | Some xs \<Rightarrow> xs"
  note eq = compute_next_scores_heap_refines[OF d sets sc, of iter]
  obtain y where y: "compute_next_scores iter (graph_at h ga) (scores_at h cs) = Inr y"
    and h': "h' = h @ [ListObj ?x, ListObj (map PyFloat y), DegObj (degrees (graph_at h ga))]"
    and r: "r = Suc (length h)"
  proof (cases "compute_next_scores iter (graph_at h ga) (scores_at h cs)")
    case (Inl e)
    with assms eq show ?thesis by simp
  next
    case (Inr y)
    with assms eq that show ?thesis by simp
  qed
  let ?new = "[ListObj ?x, ListObj (map PyFloat y), DegObj (degrees (graph_at h ga))]"
  have g': "graph_at h' ga = graph_at h ga" unfolding h' using d sets by (rule graph_at_append)
  have s': "scores_at h' cs = scores_at h cs" unfolding h' using sc by (rule scores_at_append)
  have d': "get_dict h' ga = Inr entries" unfolding h' using d by (rule get_dict_append)
  have sets': "\<forall>(k, a) \<in> set entries. get_set h' a = Inr (set_at h' a)"
  proof clarify
    fix k a assume "(k, a) \<in> set entries"
    then have "get_set h a = Inr (set_at h a)" using sets by auto
    then have "get_set h' a = Inr (set_at h a)" unfolding h' by (rule get_set_append)
    then show "get_set h' a = Inr (set_at h' a)" using get_set_at by fastforce
  qed
  have sc': "cs = None \<or> (\<exists>a xs. cs = Some a \<and> get_list h' a = Inr xs)"
    using sc get_list_append[of h _ _ ?new] unfolding h' by blast
  let ?x' = "case scores_at h' cs of None \<Rightarrow> replicate (length entries) (PyFloat (Finite 1)) | Some xs \<Rightarrow> xs"
  let ?h'' = "h' @ [ListObj ?x', ListObj (map PyFloat y), DegObj (degrees (graph_at h' ga))]"
  have run2: "compute_next_scores_heap iter h' ga cs = Inr (?h'', Suc (length h'))"
    using compute_next_scores_heap_refines[OF d' sets' sc', of iter] y g' s' by simp
  have a: "?h'' ! Suc (length h') = ListObj (map PyFloat y)" by (simp add: nth_append)
  have b: "take (length h) ?h'' = h" unfolding h' by simp
  have c: "graph_at ?h'' ga = graph_at h ga"
    using graph_at_append[OF d' sets'] g' by simp
  have e: "scores_at ?h'' cs = scores_at h cs"
    using scores_at_append[OF sc'] s' by simp
  have second: "\<exists>h'' r'. compute_next_scores_heap iter h' ga cs = Inr (h'', r') \<and>
      h'' ! r' = ListObj (map PyFloat y) \<and> take (length h) h'' = h \<and>
      graph_at h'' ga = graph_at h ga \<and> scores_at h'' cs = scores_at h cs"
    using run2 a b c e by blast
  have f: "take (length h) h' = h" "length h \<le> r" "r < length h'" "h' ! r = ListObj (map PyFloat y)"
    unfolding h' r by (simp_all add: nth_append)
  have "\<exists>y. h' ! r = ListObj (map PyFloat y) \<and>
      compute_next_scores iter (graph_at h ga) (scores_at h cs) = Inr y \<and>
      (\<exists>h'' r'. compute_next_scores_heap iter h' ga cs = Inr (h'', r') \<and>
          h'' ! r' = ListObj (map PyFloat y) \<and> take (length h) h'' = h \<and>
          graph_at h'' ga = graph_at h ga \<and> scores_at h'' cs = scores_at h cs)"
    using f(4) y second by blast
  with f(1-3) g' s' show ?thesis by simp
qed

theorem compute_next_scores_stateless_witness:
  "compute_next_scores_heap (\<lambda>i. sorted_list_of_fset)
     [SetObj {|1|}, SetObj {|0|}, DictObj [(0, 0), (1, 1)],
      ListObj [PyFloat (Finite 3), PyInt 5]] 2 (Some 3) =
     Inr ([SetObj {|1|}, SetObj {|0|}, DictObj [(0, 0), (1, 1)],
           ListObj [PyFloat (Finite 3), PyInt 5],
           ListObj [PyFloat (Finite 3), PyInt 5],
           ListObj [PyFloat (Finite 5), PyFloat (Finite 3)], DegObj [(0, 1), (1, 1)]], 5) \<and>
   take 4 [SetObj {|1|}, SetObj {|0|}, DictObj [(0, 0), (1, 1)],
           ListObj [PyFloat (Finite 3), PyInt 5],
           ListObj [PyFloat (Finite 3), PyInt 5],
           ListObj [PyFloat (Finite 5), PyFloat (Finite 3)], DegObj [(0, 1), (1, 1)]] =
     [SetObj {|1|}, SetObj {|0|}, DictObj [(0, 0), (1, 1)],
      ListObj [PyFloat (Finite 3), PyInt 5]] \<and>
   (\<exists>h'' r'. compute_next_scores_heap (\<lambda>i. sorted_list_of_fset)
       [SetObj {|1|}, SetObj {|0|}, DictObj [(0, 0), (1, 1)],
        ListObj [PyFloat (Finite 3), PyInt 5],
        ListObj [PyFloat (Finite 3), PyInt 5],
        ListObj [PyFloat (Finite 5), PyFloat (Finite 3)], DegObj [(0, 1), (1, 1)]] 2 (Some 3) =
         Inr (h'', r') \<and>
       h'' ! r' = ListObj [PyFloat (Finite 5), PyFloat (Finite 3)])"
proof -
  let ?x = "[PyFloat (Finite 3), PyInt 5]"
  let ?h = "[SetObj {|1|}, SetObj {|0|}, DictObj [(0, 0), (1, 1)], ListObj ?x]"
  let ?h' = "[SetObj {|1|}, SetObj {|0|}, DictObj [(0, 0), (1, 1)], ListObj ?x,
           ListObj ?x, ListObj [PyFloat (Finite 5), PyFloat (Finite 3)],
           DegObj [(0, 1), (1, 1)]]"
  let ?g = "[(0, {|1|}), (1, {|0|})] :: graph"
  let ?q = "\<lambda>j::int. if j = 0 then Finite 3 else Finite 5"
  have d: "get_dict ?h 2 = Inr [(0, 0), (1, 1)]" by (simp add: get_dict_def)
  have sets: "\<forall>(k, a) \<in> set [(0, 0), (1, 1)]. get_set ?h a = Inr (set_at ?h a)"
    by (simp add: get_set_def set_at_def)
  have sc: "Some 3 = None \<or> (\<exists>a xs. Some 3 = Some a \<and> get_list ?h a = Inr xs)"
    by (simp add: get_list_def)
  have g: "graph_at ?h 2 = ?g" by (simp add: graph_at_def get_dict_def set_at_def get_set_def)
  have x: "scores_at ?h (Some 3) = Some ?x" by (simp add: scores_at_def get_list_def)
  have "{0..<2} = {0, 1::int}" by auto
  then have v: "vertices_ok ?g" by (simp add: vertices_ok_def)
  have c: "neighbors_in_graph ?g" by (simp add: neighbors_in_graph_def)
  have u2: "[0..<2] = [0, 1]" by (simp add: upt_rec)
  have dg: "degree ?g j = (if j = 0 \<or> j = 1 then 1 else 0)" for j
    by (simp add: degree_def neighbors_def fcard_finsert_if fcard_fempty)
  have q: "\<forall>j \<in> set (map fst ?g). degree ?g j > 0 \<longrightarrow>
      true_divide (?x ! nat j) (degree ?g j) = Inr (?q j)"
    by (simp add: dg float_eval)
  have p: "compute_next_scores (\<lambda>i. sorted_list_of_fset) ?g (Some ?x) = Inr [Finite 5, Finite 3]"
    using compute_next_scores_value[OF v c enumerates_sorted _ q] u2
    by (simp add: neighbors_def dg sorted_list_examples float_eval)
  have run: "compute_next_scores_heap (\<lambda>i. sorted_list_of_fset) ?h 2 (Some 3) = Inr (?h', 5)"
    using compute_next_scores_heap_refines[OF d sets sc, of "\<lambda>i. sorted_list_of_fset"]
    unfolding g x p by (simp add: degrees_def fcard_finsert_if fcard_fempty)
  from compute_next_scores_stateless[OF run]
  have "take (length ?h) ?h' = ?h" and
    "\<exists>y. ?h' ! 5 = ListObj (map PyFloat y) \<and>
        (\<exists>h'' r'. compute_next_scores_heap (\<lambda>i. sorted_list_of_fset) ?h' 2 (Some 3) = Inr (h'', r') \<and>
            h'' ! r' = ListObj (map PyFloat y))"
    by blast+
  then have "take (length ?h) ?h' = ?h" and
    "\<exists>h'' r'. compute_next_scores_heap (\<lambda>i. sorted_list_of_fset) ?h' 2 (Some 3) = Inr (h'', r') \<and>
        h'' ! r' = ListObj [PyFloat (Finite 5), PyFloat (Finite 3)]"
    by auto
  then show ?thesis using run by simp
qed

end
